theory Spec2Isabelle
  imports Complex_Main "HOL-Library.Sublist" "HOL-Library.AList"
begin

section \<open>JavaScript values\<close>

text \<open>
  The scraper handles dynamically typed data: parsed GraphQL responses and the reel
  records built from them. They are modelled by one datatype of JavaScript values.
  Numbers are integers (the modelled code only tests numbers for truthiness, compares
  them with constants and passes them through). A string is the list of its
  characters; the modelled code compares strings with each other and with ASCII
  literals and looks at single ASCII characters, and where it calls a method of
  the language on a whole string (\<open>toLowerCase\<close>, \<open>JSON.parse\<close>, \<open>parseInt\<close>) the
  method is a parameter. An object is the association list of its own properties
  in enumeration order, read through \<open>map_of\<close>; no property holds a function, as in
  every value that \<open>JSON.parse\<close> returns.

  Object identity is not modelled: values are compared structurally. That is what
  \<open>===\<close> and the key comparison of \<open>Map\<close> and \<open>Set\<close> do on strings, numbers,
  booleans, \<open>null\<close> and \<open>undefined\<close>, the \<open>primitive\<close> values. Two arrays or objects
  are the same key only when they are the same object, which a value does not tell;
  the properties below that depend on a key comparison are stated for primitive
  keys.
\<close>

datatype jsval =
    JUndefined
  | JNull
  | JBool bool
  | JNum int
  | JStr string
  | JArr "jsval list"
  | JObj "(string \<times> jsval) list"

datatype js_error = TypeError

text \<open>Truthiness, as tested by \<open>!x\<close>, \<open>x && y\<close>, \<open>x || y\<close> and \<open>if (x)\<close>.\<close>

fun truthy :: "jsval \<Rightarrow> bool" where
  "truthy JUndefined = False"
| "truthy JNull = False"
| "truthy (JBool b) = b"
| "truthy (JNum n) = (n \<noteq> 0)"
| "truthy (JStr s) = (s \<noteq> [])"
| "truthy (JArr xs) = True"
| "truthy (JObj fs) = True"

text \<open>
  Property read \<open>v.k\<close> on a value that is not \<open>null\<close> or \<open>undefined\<close>, and the
  optional read \<open>v?.k\<close> on any value. None of the property names read by the
  modelled code exists on a string, number, boolean or array, so only objects answer.
  Where the source reads with a plain \<open>.\<close> from a value that may be \<open>null\<close> or
  \<open>undefined\<close>, the model tests \<open>nullish\<close> first and raises.
\<close>

fun jprop :: "string \<Rightarrow> jsval \<Rightarrow> jsval" where
  "jprop k (JObj fs) = (case map_of fs k of Some v \<Rightarrow> v | None \<Rightarrow> JUndefined)"
| "jprop k v = JUndefined"

fun nullish :: "jsval \<Rightarrow> bool" where
  "nullish JUndefined = True"
| "nullish JNull = True"
| "nullish v = False"

fun primitive :: "jsval \<Rightarrow> bool" where
  "primitive (JArr xs) = False"
| "primitive (JObj fs) = False"
| "primitive v = True"

text \<open>\<open>a || b\<close>.\<close>

definition jor :: "jsval \<Rightarrow> jsval \<Rightarrow> jsval" where
  "jor a b = (if truthy a then a else b)"

text \<open>\<open>v?.[0]\<close>: the first element of an array, the first character of a string.\<close>

fun idx0 :: "jsval \<Rightarrow> jsval" where
  "idx0 (JArr (x # xs)) = x"
| "idx0 (JStr (c # cs)) = JStr [c]"
| "idx0 (JObj fs) = jprop ''0'' (JObj fs)"
| "idx0 v = JUndefined"

fun isArray :: "jsval \<Rightarrow> bool" where
  "isArray (JArr xs) = True"
| "isArray v = False"

text \<open>\<open>typeof v === 'object'\<close> holds of objects, arrays and \<open>null\<close>.\<close>

fun typeof_object :: "jsval \<Rightarrow> bool" where
  "typeof_object (JObj fs) = True"
| "typeof_object (JArr xs) = True"
| "typeof_object JNull = True"
| "typeof_object v = False"

text \<open>
  The conversion to a string that a template literal \<open>`${v}`\<close> applies to a value.
  It raises a \<open>TypeError\<close> on an object with an own property \<open>toString\<close>: that
  property hides the method of the prototype and is not a function, and the
  \<open>valueOf\<close> tried next returns the object. An array is joined, which converts its
  elements other than \<open>null\<close> and \<open>undefined\<close>; any other object becomes
  \<open>[object Object]\<close>. The string itself only goes to the log.
\<close>

fun toString_raises :: "jsval \<Rightarrow> bool" where
  "toString_raises (JObj fs) = (''toString'' \<in> set (map fst fs))"
| "toString_raises (JArr xs) = list_ex toString_raises xs"
| "toString_raises v = False"

text \<open>A log call whose message converts the values \<open>vs\<close>, in this order.\<close>

definition log_line :: "jsval list \<Rightarrow> js_error + jsval" where
  "log_line vs = (if list_ex toString_raises vs then Inl TypeError else Inr JUndefined)"

section \<open>ReelCollector\<close>

text \<open>
  \<open>collectedReels\<close> is a \<open>Map\<close> keyed by \<open>post_id\<close>; a \<open>Map\<close> enumerates in insertion
  order (\<open>getAllReels\<close> depends on it), so it is an association list that grows at the
  end. \<open>networkReels\<close> is the array filled beside it.
\<close>

record reel_collector =
  collectedReels :: "(jsval \<times> jsval) list"
  networkReels :: "jsval list"

definition new_collector :: reel_collector where
  "new_collector = \<lparr>collectedReels = [], networkReels = []\<rparr>"

definition post_id :: "jsval \<Rightarrow> jsval" where
  "post_id reelData = jprop ''post_id'' reelData"

definition hasReel :: "jsval \<Rightarrow> reel_collector \<Rightarrow> bool" where
  "hasReel postId c = (postId \<in> set (map fst (collectedReels c)))"

definition getReel :: "jsval \<Rightarrow> reel_collector \<Rightarrow> jsval" where
  "getReel postId c =
     (case map_of (collectedReels c) postId of
        Some r \<Rightarrow> jor r JNull
      | None \<Rightarrow> JNull)"

definition getAllReels :: "reel_collector \<Rightarrow> jsval list" where
  "getAllReels c = map snd (collectedReels c)"

definition getNetworkReels :: "reel_collector \<Rightarrow> jsval list" where
  "getNetworkReels c = networkReels c"

definition clear :: "reel_collector \<Rightarrow> reel_collector" where
  "clear c = c\<lparr>collectedReels := [], networkReels := []\<rparr>"

definition size_reels :: "reel_collector \<Rightarrow> nat" where
  "size_reels c = length (collectedReels c)"

text \<open>
  \<open>addReel\<close> has no \<open>return\<close> with a value on any path: a call that returns
  evaluates to \<open>undefined\<close>. After the insert it logs the identifier and
  \<open>author_username || 'unknown'\<close>, and for a record already cached the identifier;
  when that conversion raises, the call ends with the exception, the record
  inserted all the same. The first component is how the call ends, the second the
  collector after it.
\<close>

definition addReel :: "jsval \<Rightarrow> reel_collector \<Rightarrow> (js_error + jsval) \<times> reel_collector" where
  "addReel reelData c =
     (if \<not> truthy reelData \<or> \<not> truthy (post_id reelData) then (Inr JUndefined, c)
      else if \<not> hasReel (post_id reelData) c then
        (log_line [post_id reelData,
                   jor (jprop ''author_username'' reelData) (JStr ''unknown'')],
         c\<lparr>collectedReels := collectedReels c @ [(post_id reelData, reelData)],
           networkReels := networkReels c @ [reelData]\<rparr>)
      else (log_line [post_id reelData], c))"

text \<open>
  Sequences of calls on one collector. A call of \<open>addReel\<close> that ends with an
  exception has left the collector as it is here; what the caller does with the
  exception is not the collector's matter.
\<close>

datatype collector_op = AddReel jsval | Clear

fun apply_op :: "reel_collector \<Rightarrow> collector_op \<Rightarrow> reel_collector" where
  "apply_op c (AddReel r) = snd (addReel r c)"
| "apply_op c Clear = clear c"

definition run_ops :: "collector_op list \<Rightarrow> reel_collector" where
  "run_ops ops = foldl apply_op new_collector ops"

text \<open>
  What the collector is meant to hold, said without the collector: of the records
  passed to \<open>addReel\<close> since the most recent \<open>clear\<close>, those that carry an identifier,
  and of these the first one for each identifier, in arrival order.
  \<open>primitive_ids\<close> says that every identifier passed in is a primitive value.
\<close>

fun adds_since_clear :: "jsval list \<Rightarrow> collector_op \<Rightarrow> jsval list" where
  "adds_since_clear acc (AddReel r) = acc @ [r]"
| "adds_since_clear acc Clear = []"

definition has_id :: "jsval \<Rightarrow> bool" where
  "has_id r = (truthy r \<and> truthy (post_id r))"

fun first_by_id :: "jsval list \<Rightarrow> jsval list \<Rightarrow> jsval list" where
  "first_by_id seen [] = []"
| "first_by_id seen (r # rs) =
     (if post_id r \<in> set seen then first_by_id seen rs
      else r # first_by_id (post_id r # seen) rs)"

definition expected_reels :: "collector_op list \<Rightarrow> jsval list" where
  "expected_reels ops = first_by_id [] (filter has_id (foldl adds_since_clear [] ops))"

fun primitive_id :: "collector_op \<Rightarrow> bool" where
  "primitive_id (AddReel r) = primitive (post_id r)"
| "primitive_id Clear = True"

definition primitive_ids :: "collector_op list \<Rightarrow> bool" where
  "primitive_ids ops = list_all primitive_id ops"

text \<open>The invariant that ties the array to the map.\<close>

definition collector_inv :: "reel_collector \<Rightarrow> bool" where
  "collector_inv c =
     (map snd (collectedReels c) = networkReels c \<and>
      map fst (collectedReels c) = map post_id (networkReels c) \<and>
      distinct (map fst (collectedReels c)) \<and>
      list_all has_id (networkReels c))"

text \<open>
  Records for the closed examples: a reel with an identifier and a number of likes
  that tells two reels with the same identifier apart, and a reel whose user name
  has no string conversion.
\<close>

definition sample_reel :: "string \<Rightarrow> int \<Rightarrow> jsval" where
  "sample_reel i n = JObj [(''post_id'', JStr i), (''likes_count'', JNum n)]"

definition unloggable_reel :: jsval where
  "unloggable_reel =
     JObj [(''post_id'', JStr ''X''),
           (''author_username'', JObj [(''toString'', JNum 1)])]"

definition sample_ops :: "collector_op list" where
  "sample_ops =
     [AddReel (sample_reel ''X'' 1), AddReel (sample_reel ''X'' 2),
      AddReel (JObj [(''likes_count'', JNum 3)]), AddReel (sample_reel ''Y'' 4)]"

section \<open>HashtagExtractor.extractFromGraphQL\<close>

text \<open>
  \<open>hashtagName.toLowerCase().replace(/^#/, '')\<close>. \<open>String.prototype.toLowerCase\<close>
  is a parameter of the model, written \<open>toLowerCase\<close>: it follows the case mappings
  of Unicode, which are not this program's. Only a string has the method; on any
  other value the call raises a \<open>TypeError\<close>.
\<close>

fun strip_hash :: "string \<Rightarrow> string" where
  "strip_hash [] = []"
| "strip_hash (c # cs) = (if c = CHR ''#'' then cs else c # cs)"

fun normalize_name :: "(string \<Rightarrow> string) \<Rightarrow> jsval \<Rightarrow> js_error + string" where
  "normalize_name toLowerCase (JStr s) = Inr (strip_hash (toLowerCase s))"
| "normalize_name toLowerCase v = Inl TypeError"

text \<open>\<open>Set.add\<close> on the insertion-ordered set of tags.\<close>

definition set_add :: "'a \<Rightarrow> 'a list \<Rightarrow> 'a list" where
  "set_add x xs = (if x \<in> set xs then xs else xs @ [x])"

text \<open>\<open>array.forEach((x, index) => ...)\<close> with a body that may raise.\<close>

fun forEach_index ::
  "(nat \<Rightarrow> 'a \<Rightarrow> 's \<Rightarrow> js_error + 's) \<Rightarrow> nat \<Rightarrow> 'a list \<Rightarrow> 's \<Rightarrow> js_error + 's" where
  "forEach_index body index [] st = Inr st"
| "forEach_index body index (x # xs) st =
     (case body index x st of
        Inl e \<Rightarrow> Inl e
      | Inr st' \<Rightarrow> forEach_index body (Suc index) xs st')"

type_synonym hashtag_state = "string list \<times> jsval list"

definition metadata_entry ::
  "string \<Rightarrow> jsval \<Rightarrow> jsval \<Rightarrow> nat \<Rightarrow> string \<Rightarrow> jsval" where
  "metadata_entry normalized hashtag_id post_count index extraction_method =
     JObj [(''hashtag'', JStr normalized),
           (''hashtag_id'', hashtag_id),
           (''post_count'', post_count),
           (''position'', JNum (int index + 1)),
           (''extraction_method'', JStr extraction_method)]"

definition metadata_has :: "string \<Rightarrow> jsval list \<Rightarrow> bool" where
  "metadata_has normalized metadata =
     list_ex (\<lambda>m. jprop ''hashtag'' m = JStr normalized) metadata"

text \<open>Method 1: the body run on each element of \<open>edge_media_to_hashtag.edges\<close>.\<close>

definition hashtag_edge ::
  "(string \<Rightarrow> string) \<Rightarrow> nat \<Rightarrow> jsval \<Rightarrow> hashtag_state \<Rightarrow> js_error + hashtag_state" where
  "hashtag_edge toLowerCase index edge st =
     (if nullish edge then Inl TypeError
      else
        let node = jprop ''node'' edge in
        if truthy node then
          let hashtagName = jor (jprop ''name'' node) (jprop ''hashtag'' node) in
          if truthy hashtagName then
            (case normalize_name toLowerCase hashtagName of
               Inl e \<Rightarrow> Inl e
             | Inr normalized \<Rightarrow>
                 Inr (set_add normalized (fst st),
                      snd st @
                        [metadata_entry normalized
                           (jor (jprop ''id'' node) JNull)
                           (jor (jor (jprop ''count'' (jprop ''edge_hashtag_to_media'' node))
                                     (jprop ''media_count'' node)) JNull)
                           index ''graphql_edge'']))
          else Inr st
        else Inr st)"

text \<open>
  Methods 2 and 3: the body run on each element of \<open>hashtags\<close> and of
  \<open>caption.hashtags\<close>. They differ in the \<open>post_count\<close> and the method name only.
\<close>

fun is_string :: "jsval \<Rightarrow> bool" where
  "is_string (JStr s) = True"
| "is_string v = False"

definition hashtag_tag ::
  "(string \<Rightarrow> string) \<Rightarrow> bool \<Rightarrow> string \<Rightarrow> nat \<Rightarrow> jsval \<Rightarrow> hashtag_state \<Rightarrow> js_error + hashtag_state" where
  "hashtag_tag toLowerCase with_count extraction_method index tag st =
     (if \<not> is_string tag \<and> nullish tag then Inl TypeError
      else
        let hashtagName =
              (if is_string tag then tag else jor (jprop ''name'' tag) (jprop ''hashtag'' tag)) in
        if truthy hashtagName then
          (case normalize_name toLowerCase hashtagName of
             Inl e \<Rightarrow> Inl e
           | Inr normalized \<Rightarrow>
               Inr (set_add normalized (fst st),
                    if \<not> metadata_has normalized (snd st) then
                      snd st @
                        [metadata_entry normalized
                           (if typeof_object tag then jprop ''id'' tag else JNull)
                           (if with_count \<and> typeof_object tag
                            then jprop ''media_count'' tag else JNull)
                           index extraction_method]
                    else snd st))
        else Inr st)"

definition extractFromGraphQL ::
  "(string \<Rightarrow> string) \<Rightarrow> jsval \<Rightarrow> js_error + hashtag_state" where
  "extractFromGraphQL toLowerCase items =
     (let edges = jprop ''edges'' (jprop ''edge_media_to_hashtag'' items);
          direct = jprop ''hashtags'' items;
          in_caption = jprop ''hashtags'' (jprop ''caption'' items)
      in
        case (case edges of
                JArr es \<Rightarrow> forEach_index (hashtag_edge toLowerCase) 0 es ([], [])
              | _ \<Rightarrow> Inr ([], [])) of
          Inl e \<Rightarrow> Inl e
        | Inr st1 \<Rightarrow>
            (case (case direct of
                     JArr ts \<Rightarrow> forEach_index (hashtag_tag toLowerCase True ''graphql_array'') 0 ts st1
                   | _ \<Rightarrow> Inr st1) of
               Inl e \<Rightarrow> Inl e
             | Inr st2 \<Rightarrow>
                 (case in_caption of
                    JArr ts \<Rightarrow> forEach_index (hashtag_tag toLowerCase False ''caption_object'') 0 ts st2
                  | _ \<Rightarrow> Inr st2)))"

section \<open>GraphQLExtractor\<close>

text \<open>
  \<open>extractReelDataFromItem\<close> builds the reel record inside one \<open>try\<close> whose \<open>catch\<close>
  returns \<open>null\<close>. The reads of \<open>items\<close> raise when \<open>items\<close> is \<open>null\<close> or
  \<open>undefined\<close>; the hashtag extraction raises as modelled above.
\<close>

definition extractReelDataFromItem :: "(string \<Rightarrow> string) \<Rightarrow> jsval \<Rightarrow> jsval" where
  "extractReelDataFromItem toLowerCase items =
     (if nullish items then JNull
      else
        case extractFromGraphQL toLowerCase items of
          Inl e \<Rightarrow> JNull
        | Inr hashtagResult \<Rightarrow>
            let reelData = JObj
              [(''post_id'', jor (jor (jprop ''shortcode'' items) (jprop ''code'' items)) JNull),
               (''author_username'',
                  jor (jor (jprop ''username'' (jprop ''owner'' items))
                           (jprop ''username'' (jprop ''user'' items))) JNull),
               (''caption'',
                  jor (jor (jor (jprop ''text'' (jprop ''node''
                                   (idx0 (jprop ''edges'' (jprop ''edge_media_to_caption'' items)))))
                                (jprop ''text'' (jprop ''caption'' items)))
                           (jprop ''caption'' items)) JNull),
               (''hashtags'', JArr (map JStr (fst hashtagResult))),
               (''hashtag_metadata'', JArr (snd hashtagResult)),
               (''likes_count'',
                  jor (jor (jor (jprop ''count'' (jprop ''edge_media_preview_like'' items))
                                (jprop ''like_count'' items))
                           (jprop ''count'' (jprop ''edge_liked_by'' items))) (JNum 0)),
               (''comments_count'',
                  jor (jor (jprop ''count'' (jprop ''edge_media_to_comment'' items))
                           (jprop ''comment_count'' items)) (JNum 0)),
               (''view_count'',
                  jor (jor (jor (jor (jprop ''video_view_count'' items)
                                     (jprop ''video_play_count'' items))
                                (jprop ''view_count'' items))
                           (jprop ''play_count'' items)) (JNum 0)),
               (''media_type'', JStr ''reel''),
               (''video_url'',
                  jor (jor (jprop ''url'' (idx0 (jprop ''video_versions'' items)))
                           (jprop ''video_url'' items)) JNull),
               (''thumbnail_url'',
                  jor (jor (jor (jor (jprop ''thumbnail_src'' items)
                                     (jprop ''display_url'' items))
                                (jprop ''url'' (idx0 (jprop ''candidates''
                                   (jprop ''image_versions2'' items)))))
                           (jprop ''src'' (idx0 (jprop ''display_resources'' items)))) JNull),
               (''created_at'',
                  jor (jor (jprop ''taken_at_timestamp'' items) (jprop ''taken_at'' items)) JNull)]
            in if truthy (post_id reelData) then reelData else JNull)"

definition extractReelFromGraphQLItem :: "(string \<Rightarrow> string) \<Rightarrow> jsval \<Rightarrow> jsval" where
  "extractReelFromGraphQLItem toLowerCase items =
     (if \<not> truthy items then JNull else extractReelDataFromItem toLowerCase items)"

text \<open>
  \<open>edges.length > 0\<close>. On an array it asks for an element, a string that got here is
  not empty, a number or boolean has no \<open>length\<close>. When \<open>edges\<close> is an object its
  \<open>length\<close> property is compared after conversion to a number; the conversion of a
  string, array or object is left to the parameter \<open>positive\<close> (it is a matter of
  the language's number syntax, not of this program).
\<close>

fun gt_zero :: "(jsval \<Rightarrow> bool) \<Rightarrow> jsval \<Rightarrow> bool" where
  "gt_zero positive JUndefined = False"
| "gt_zero positive JNull = False"
| "gt_zero positive (JBool b) = b"
| "gt_zero positive (JNum n) = (0 < n)"
| "gt_zero positive v = positive v"

fun length_gt_zero :: "(jsval \<Rightarrow> bool) \<Rightarrow> jsval \<Rightarrow> bool" where
  "length_gt_zero positive (JArr xs) = (xs \<noteq> [])"
| "length_gt_zero positive (JStr s) = (s \<noteq> [])"
| "length_gt_zero positive (JObj fs) = gt_zero positive (jprop ''length'' (JObj fs))"
| "length_gt_zero positive v = False"

text \<open>
  Structures 3 and 4: \<open>if (edges.length > 0 && edges[0].node?.media) items =
  edges[0].node.media\<close>. The result is the new value of \<open>items\<close> (\<open>null\<close> when the
  test fails); reading \<open>node\<close> from a first element that is \<open>null\<close> or \<open>undefined\<close>
  raises.
\<close>

definition first_edge_media :: "(jsval \<Rightarrow> bool) \<Rightarrow> jsval \<Rightarrow> js_error + jsval" where
  "first_edge_media positive edges =
     (if length_gt_zero positive edges then
        (if nullish (idx0 edges) then Inl TypeError
         else
           let media = jprop ''media'' (jprop ''node'' (idx0 edges)) in
           Inr (if truthy media then media else JNull))
      else Inr JNull)"

definition extractReelFromGraphQL ::
  "(string \<Rightarrow> string) \<Rightarrow> (jsval \<Rightarrow> bool) \<Rightarrow> jsval \<Rightarrow> jsval" where
  "extractReelFromGraphQL toLowerCase positive data =
     (let d = jprop ''data'' data;
          home = jprop ''edges'' (jprop ''xdt_api__v1__clips__home__connection_v2'' d);
          user = jprop ''edges'' (jprop ''xdt_api__v1__clips__user__connection_v2'' d);
          found =
            (if truthy (jprop ''xdt_shortcode_media'' d) then Inr (jprop ''xdt_shortcode_media'' d)
             else if truthy (jprop ''shortcode_media'' d) then Inr (jprop ''shortcode_media'' d)
             else if truthy home then first_edge_media positive home
             else if truthy user then first_edge_media positive user
             else if truthy (jprop ''items'' data) \<and> isArray (jprop ''items'' data)
               then Inr (idx0 (jprop ''items'' data))
             else if truthy (jprop ''items'' d) \<and> isArray (jprop ''items'' d)
               then Inr (idx0 (jprop ''items'' d))
             else Inr JNull)
      in case found of
           Inl e \<Rightarrow> JNull
         | Inr items \<Rightarrow>
             if \<not> truthy items then JNull else extractReelDataFromItem toLowerCase items)"

section \<open>GraphQLHandler\<close>

text \<open>
  \<open>findMediaObjects\<close>: the depth-bounded search. \<open>for (const key in obj)\<close> visits
  the properties of an object and the elements of an array; an array-valued member
  is searched element by element, an object-valued one as a whole, both one level
  deeper.
\<close>

definition looks_like_media :: "jsval \<Rightarrow> bool" where
  "looks_like_media obj =
     ((jprop ''__typename'' obj = JStr ''XDTMediaDict'' \<or> truthy (jprop ''code'' obj) \<or>
       truthy (jprop ''shortcode'' obj) \<or> truthy (jprop ''pk'' obj)) \<and>
      (jprop ''product_type'' obj = JStr ''clips'' \<or> jprop ''media_type'' obj = JNum 2))"

fun members :: "jsval \<Rightarrow> jsval list" where
  "members (JObj fs) = map (\<lambda>key. jprop key (JObj fs)) (map fst fs)"
| "members (JArr xs) = xs"
| "members v = []"

function findMediaObjects :: "jsval \<Rightarrow> nat \<Rightarrow> jsval list" where
  "findMediaObjects obj depth =
     (if depth > 5 then []
      else if \<not> truthy obj \<or> \<not> typeof_object obj then []
      else
        (if looks_like_media obj then [obj] else []) @
        concat (map (\<lambda>v. case v of
                        JArr items \<Rightarrow> concat (map (\<lambda>item. findMediaObjects item (depth + 1)) items)
                      | _ \<Rightarrow> if truthy v \<and> typeof_object v
                             then findMediaObjects v (depth + 1) else [])
                    (members obj)))"
  by pat_completeness auto
termination
  by (relation "measure (\<lambda>(obj, depth). 6 - depth)") auto

text \<open>
  How a call ends: by returning, or by an exception that leaves it. The collector
  that goes with it is the collector at that moment.
\<close>

datatype completion = Returned | Threw

text \<open>
  \<open>if (reelData && reelData.post_id) this.reelCollector.addReel(reelData)\<close>. The
  handler has no \<open>try\<close>: an exception of \<open>addReel\<close> leaves the handler, and the
  loop around the call with it. The raw packet saved through
  \<open>storage.saveRawPacket\<close> beforehand goes to a file inside a \<open>try\<close> of its own; it
  neither raises nor touches the collector and is left out.
\<close>

definition collect :: "jsval \<Rightarrow> reel_collector \<Rightarrow> completion \<times> reel_collector" where
  "collect reelData c =
     (if truthy reelData \<and> truthy (post_id reelData) then
        (case addReel reelData c of
           (Inl e, c') \<Rightarrow> (Threw, c')
         | (Inr v, c') \<Rightarrow> (Returned, c'))
      else (Returned, c))"

text \<open>Structure 1: \<open>for (const edge of edges)\<close>.\<close>

fun feed_edges ::
  "(string \<Rightarrow> string) \<Rightarrow> jsval list \<Rightarrow> reel_collector \<Rightarrow> completion \<times> reel_collector" where
  "feed_edges toLowerCase [] c = (Returned, c)"
| "feed_edges toLowerCase (edge # edges) c =
     (if nullish edge then (Threw, c)
      else
        let media = jprop ''media'' (jprop ''node'' edge) in
        if truthy media then
          (case collect (extractReelFromGraphQLItem toLowerCase media) c of
             (Threw, c') \<Rightarrow> (Threw, c')
           | (Returned, c') \<Rightarrow> feed_edges toLowerCase edges c')
        else feed_edges toLowerCase edges c)"

text \<open>Structure 3: \<open>for (const media of mediaObjects)\<close>.\<close>

fun media_objects ::
  "(string \<Rightarrow> string) \<Rightarrow> jsval list \<Rightarrow> reel_collector \<Rightarrow> completion \<times> reel_collector" where
  "media_objects toLowerCase [] c = (Returned, c)"
| "media_objects toLowerCase (media # mediaObjects) c =
     (case collect (extractReelFromGraphQLItem toLowerCase media) c of
        (Threw, c') \<Rightarrow> (Threw, c')
      | (Returned, c') \<Rightarrow> media_objects toLowerCase mediaObjects c')"

text \<open>
  \<open>for (const edge of edges)\<close> iterates an array; a string would be iterated by
  characters, none of which has a \<open>node\<close>; any other truthy value is not iterable.
\<close>

definition processGraphQLResponse ::
  "(string \<Rightarrow> string) \<Rightarrow> (jsval \<Rightarrow> bool) \<Rightarrow> jsval \<Rightarrow> reel_collector \<Rightarrow>
     completion \<times> reel_collector" where
  "processGraphQLResponse toLowerCase positive parsedData c =
     (if \<not> truthy parsedData \<or> \<not> truthy (jprop ''data'' parsedData) then (Returned, c)
      else
        let d = jprop ''data'' parsedData in
        if truthy (jprop ''xdt_api__v1__clips__home__connection_v2'' d) then
          (case jor (jprop ''edges'' (jprop ''xdt_api__v1__clips__home__connection_v2'' d))
                    (JArr []) of
             JArr edges \<Rightarrow> feed_edges toLowerCase edges c
           | JStr s \<Rightarrow> (Returned, c)
           | _ \<Rightarrow> (Threw, c))
        else if truthy (jprop ''xdt_shortcode_media'' d) \<or> truthy (jprop ''shortcode_media'' d) then
          collect (extractReelFromGraphQL toLowerCase positive parsedData) c
        else if typeof_object d then
          media_objects toLowerCase (findMediaObjects d 0) c
        else (Returned, c))"

section \<open>NetworkInterceptor: the sendDataToNode callback\<close>

text \<open>
  The packet the page sends: the three capture paths of the injected script all
  send strings (\<open>http_method\<close> is the field \<open>method\<close>). The pattern
  \<open>/^for \(;;\);\s*/\<close> looks at white space of every kind, most of it outside ASCII,
  so the strings of a packet are kept as the lists of their UTF-16 code units, as
  the language has them; \<open>ascii\<close> gives the code units of an ASCII literal.
  \<open>regex_space\<close> is the class \<open>\s\<close>: the white space and line terminators of the
  language (tab, line feed, vertical tab, form feed, carriage return, space,
  no-break space, U+1680, U+2000 to U+200A, U+2028, U+2029, U+202F, U+205F, U+3000
  and U+FEFF). \<open>JSON.parse\<close> is a parameter (\<open>None\<close> is its \<open>SyntaxError\<close>).
\<close>

definition ascii :: "string \<Rightarrow> nat list" where
  "ascii s = map of_char s"

record packet =
  url :: "nat list"
  http_method :: "nat list"
  data :: "nat list"
  contentType :: "nat list"

definition regex_space :: "nat \<Rightarrow> bool" where
  "regex_space u =
     (u \<in> {9, 10, 11, 12, 13, 32, 160, 5760, 8232, 8233, 8239, 8287, 12288, 65279} \<or>
      8192 \<le> u \<and> u \<le> 8202)"

definition anti_hijack_prefix :: "nat list" where
  "anti_hijack_prefix = ascii ''for (;;);''"

definition clean_body :: "nat list \<Rightarrow> nat list" where
  "clean_body body =
     (if prefix anti_hijack_prefix body
      then dropWhile regex_space (drop (length anti_hijack_prefix) body)
      else body)"

text \<open>The inner \<open>try\<close> block, before its \<open>catch\<close>.\<close>

definition parse_and_process ::
  "(nat list \<Rightarrow> jsval option) \<Rightarrow> (string \<Rightarrow> string) \<Rightarrow> (jsval \<Rightarrow> bool) \<Rightarrow> nat list \<Rightarrow>
     reel_collector \<Rightarrow> completion \<times> reel_collector" where
  "parse_and_process JSON_parse toLowerCase positive body c =
     (case JSON_parse (clean_body body) of
        None \<Rightarrow> (Threw, c)
      | Some parsedData \<Rightarrow>
          if \<not> truthy parsedData \<or> \<not> truthy (jprop ''data'' parsedData) then (Returned, c)
          else processGraphQLResponse toLowerCase positive parsedData c)"

text \<open>\<open>try { ... } catch (error) { ... }\<close> with a handler that only logs.\<close>

definition caught :: "completion \<times> 's \<Rightarrow> completion \<times> 's" where
  "caught r = (Returned, snd r)"

definition sendDataToNode ::
  "(nat list \<Rightarrow> jsval option) \<Rightarrow> (string \<Rightarrow> string) \<Rightarrow> (jsval \<Rightarrow> bool) \<Rightarrow> packet \<Rightarrow>
     reel_collector \<Rightarrow> completion \<times> reel_collector" where
  "sendDataToNode JSON_parse toLowerCase positive interceptedData c =
     caught
       (if sublist (ascii ''/graphql/query'') (url interceptedData) \<and>
           http_method interceptedData = ascii ''POST''
        then caught (parse_and_process JSON_parse toLowerCase positive (data interceptedData) c)
        else (Returned, c))"

section \<open>Notions used to state the extraction properties\<close>

text \<open>
  The identifier and the user name of an item: the expressions the extractor stores
  as \<open>post_id\<close> and \<open>author_username\<close>. An item is \<open>loggable\<close> when the log line
  that \<open>addReel\<close> writes for its record does not raise.
\<close>

definition item_id :: "jsval \<Rightarrow> jsval" where
  "item_id item = jor (jor (jprop ''shortcode'' item) (jprop ''code'' item)) JNull"

definition item_user :: "jsval \<Rightarrow> jsval" where
  "item_user item =
     jor (jor (jprop ''username'' (jprop ''owner'' item))
              (jprop ''username'' (jprop ''user'' item))) JNull"

definition loggable :: "jsval \<Rightarrow> bool" where
  "loggable item = (\<not> toString_raises (item_id item) \<and> \<not> toString_raises (item_user item))"

text \<open>
  \<open>nested n obj item\<close>: \<open>item\<close> lies \<open>n\<close> levels below \<open>obj\<close>, where a level is a
  step from an object or array to one of its members, or to an element of an
  array-valued member.
\<close>

fun nested :: "nat \<Rightarrow> jsval \<Rightarrow> jsval \<Rightarrow> bool" where
  "nested 0 obj item = (obj = item)"
| "nested (Suc n) obj item =
     list_ex (\<lambda>v. case v of
                 JArr items \<Rightarrow> list_ex (\<lambda>x. nested n x item) items
               | _ \<Rightarrow> nested n v item)
       (members obj)"

text \<open>
  The payload shapes, as predicates on the parsed response \<open>parsedData\<close> and the item
  it carries: (a) the item under \<open>data.xdt_shortcode_media\<close> or
  \<open>data.shortcode_media\<close>; (b) the item as the \<open>node.media\<close> of an edge of
  \<open>data.xdt_api__v1__clips__home__connection_v2.edges\<close>, no element of which is
  \<open>null\<close>; (d) none of these keys, and an item that looks like a video post at most
  five levels below \<open>data\<close>. In (b) and (d) the handler loops over several items
  and the loop ends at the first exception, so every other item of the loop is
  \<open>loggable\<close>: in (b) the \<open>node.media\<close> of each edge, in (d) each object that the
  search finds.
\<close>

definition single_item_shape :: "jsval \<Rightarrow> jsval \<Rightarrow> bool" where
  "single_item_shape parsedData item =
     (let d = jprop ''data'' parsedData in
        \<not> truthy (jprop ''xdt_api__v1__clips__home__connection_v2'' d) \<and>
        jor (jprop ''xdt_shortcode_media'' d) (jprop ''shortcode_media'' d) = item)"

definition feed_connection_shape :: "jsval \<Rightarrow> jsval \<Rightarrow> bool" where
  "feed_connection_shape parsedData item =
     (case jprop ''edges'' (jprop ''xdt_api__v1__clips__home__connection_v2''
             (jprop ''data'' parsedData)) of
        JArr edges \<Rightarrow>
          list_all (\<lambda>e. \<not> nullish e) edges \<and>
          list_all (\<lambda>e. jprop ''media'' (jprop ''node'' e) = item \<or>
                        loggable (jprop ''media'' (jprop ''node'' e))) edges \<and>
          list_ex (\<lambda>e. jprop ''media'' (jprop ''node'' e) = item) edges
      | _ \<Rightarrow> False)"

definition nested_item_shape :: "nat \<Rightarrow> jsval \<Rightarrow> jsval \<Rightarrow> bool" where
  "nested_item_shape n parsedData item =
     (let d = jprop ''data'' parsedData in
        \<not> truthy (jprop ''xdt_api__v1__clips__home__connection_v2'' d) \<and>
        \<not> truthy (jprop ''xdt_shortcode_media'' d) \<and>
        \<not> truthy (jprop ''shortcode_media'' d) \<and>
        n \<le> 5 \<and> nested n d item \<and> looks_like_media item \<and>
        list_all (\<lambda>media. media = item \<or> loggable media) (findMediaObjects d 0))"

text \<open>
  Values for the parameters in the closed examples. None of the examples reaches
  the comparison, so \<open>positive\<close> is the constant \<open>False\<close>. \<open>toLowerCase\<close> is given on
  ASCII strings, where it lowers the letters \<open>A\<close> to \<open>Z\<close>; the examples pass it no
  other string. \<open>JSON.parse\<close> is given on the texts the examples use: \<open>sample_text\<close>
  is JSON and has the value \<open>sample_value\<close>; the other texts (\<open>sample_text\<close> behind
  the prefix or behind a form feed) are not JSON and raise.
\<close>

definition lower_char :: "char \<Rightarrow> char" where
  "lower_char c =
     (if 65 \<le> (of_char c :: nat) \<and> (of_char c :: nat) \<le> 90
      then char_of ((of_char c :: nat) + 32) else c)"

definition toLowerCase_ascii :: "string \<Rightarrow> string" where
  "toLowerCase_ascii s = map lower_char s"

definition never_positive :: "jsval \<Rightarrow> bool" where
  "never_positive v = False"

definition sample_item :: jsval where
  "sample_item = JObj [(''shortcode'', JStr ''X''), (''like_count'', JNum (- 5))]"

definition sample_value :: jsval where
  "sample_value = JObj [(''data'', JObj [(''xdt_shortcode_media'', sample_item)])]"

definition sample_text :: "nat list" where
  \<open>sample_text =
     ascii ''{"data":{"xdt_shortcode_media":{"shortcode":"X","like_count":-5}}}''\<close>

definition JSON_parse_sample :: "nat list \<Rightarrow> jsval option" where
  "JSON_parse_sample s = (if s = sample_text then Some sample_value else None)"

definition sample_packet :: "nat list \<Rightarrow> packet" where
  "sample_packet body =
     \<lparr>url = ascii ''https://www.instagram.com/graphql/query'', http_method = ascii ''POST'',
      data = body, contentType = ascii ''application/json''\<rparr>"

text \<open>Example payloads: one video item with identifier \<open>X\<close> in each shape.\<close>

definition sample_clip :: jsval where
  "sample_clip = JObj [(''code'', JStr ''X''), (''media_type'', JNum 2)]"

definition single_item_payload :: jsval where
  "single_item_payload = JObj [(''data'', JObj [(''shortcode_media'', sample_clip)])]"

definition feed_connection_payload :: jsval where
  "feed_connection_payload =
     JObj [(''data'', JObj [(''xdt_api__v1__clips__home__connection_v2'',
       JObj [(''edges'', JArr [JObj [(''node'', JObj [(''media'', sample_clip)])]])])])]"

definition bare_items_payload :: jsval where
  "bare_items_payload = JObj [(''items'', JArr [sample_clip])]"

definition nested_item_payload :: jsval where
  "nested_item_payload =
     JObj [(''data'', JObj [(''feed'',
       JObj [(''sections'', JArr [JObj [(''clip'', sample_clip)]])])])]"

definition deep_item_payload :: jsval where
  "deep_item_payload =
     JObj [(''data'', JObj [(''a'', JObj [(''b'', JObj [(''c'', JObj [(''d'',
       JObj [(''e'', JObj [(''f'', sample_clip)])])])])])])]"

text \<open>
  A feed of two items: the first has a user name without string conversion, the
  second is the item \<open>X\<close>.
\<close>

definition unloggable_clip :: jsval where
  "unloggable_clip =
     JObj [(''code'', JStr ''A''), (''media_type'', JNum 2),
           (''user'', JObj [(''username'', JObj [(''toString'', JNum 1)])])]"

definition interrupted_feed_payload :: jsval where
  "interrupted_feed_payload =
     JObj [(''data'', JObj [(''xdt_api__v1__clips__home__connection_v2'',
       JObj [(''edges'', JArr [JObj [(''node'', JObj [(''media'', unloggable_clip)])],
                               JObj [(''node'', JObj [(''media'', sample_clip)])]])])])]"

section \<open>ReelNavigator\<close>

text \<open>
  The browser is a state \<open>'w\<close> that every page operation may change. An operation
  returns its value or raises; the state after it comes with either. The operations
  of Puppeteer are parameters, collected in a record. \<open>randomDelay\<close> waits on a
  timer and does not raise, but time passes and the page may change meanwhile.
  \<open>logCurrentSite\<close> and the logger only write log lines (inside a \<open>try\<close> of their
  own) and are left out. Element handles are numbers. The coordinates of the swipe
  are computed in floating point by the source and are rationals here; they are only
  handed to the mouse operations.
\<close>

datatype 'a res = Ok 'a | Thrown

record box =
  box_x :: rat
  box_y :: rat
  box_width :: rat
  box_height :: rat

record 'w page =
  page_url :: "'w \<Rightarrow> string res"
  focus :: "string \<Rightarrow> 'w \<Rightarrow> unit res \<times> 'w"
  keyboard_press :: "string \<Rightarrow> 'w \<Rightarrow> unit res \<times> 'w"
  query :: "string \<Rightarrow> 'w \<Rightarrow> nat option res \<times> 'w"
  scrollIntoView :: "nat \<Rightarrow> 'w \<Rightarrow> unit res \<times> 'w"
  click :: "nat \<Rightarrow> 'w \<Rightarrow> unit res \<times> 'w"
  boundingBox :: "nat \<Rightarrow> 'w \<Rightarrow> box option res \<times> 'w"
  mouse_move :: "rat \<Rightarrow> rat \<Rightarrow> nat \<Rightarrow> 'w \<Rightarrow> unit res \<times> 'w"
  mouse_down :: "'w \<Rightarrow> unit res \<times> 'w"
  mouse_up :: "'w \<Rightarrow> unit res \<times> 'w"
  randomDelay :: "nat \<Rightarrow> nat \<Rightarrow> 'w \<Rightarrow> 'w"

text \<open>Sequencing of awaited operations inside a \<open>try\<close> block: the first raise ends it.\<close>

definition and_then ::
  "('w \<Rightarrow> 'a res \<times> 'w) \<Rightarrow> ('a \<Rightarrow> 'w \<Rightarrow> 'b res \<times> 'w) \<Rightarrow> 'w \<Rightarrow> 'b res \<times> 'w" where
  "and_then m f w = (case m w of (Ok a, w') \<Rightarrow> f a w' | (Thrown, w') \<Rightarrow> (Thrown, w'))"

definition delay :: "'w page \<Rightarrow> nat \<Rightarrow> nat \<Rightarrow> 'w \<Rightarrow> unit res \<times> 'w" where
  "delay p lo hi w = (Ok (), randomDelay p lo hi w)"

text \<open>
  \<open>url.match(/\/(?:reels?)\/([^\/\?]+)/)\<close>: the leftmost \<open>/reel/\<close> or \<open>/reels/\<close>
  that is followed by at least one character other than \<open>/\<close> and \<open>?\<close>; the identifier
  is the longest run of such characters.
\<close>

definition id_char :: "char \<Rightarrow> bool" where
  "id_char ch = (ch \<noteq> CHR ''/'' \<and> ch \<noteq> CHR ''?'')"

fun reel_id_of_url :: "string \<Rightarrow> string option" where
  "reel_id_of_url [] = None"
| "reel_id_of_url (ch # rest) =
     (if prefix ''/reels/'' (ch # rest) \<and> takeWhile id_char (drop 7 (ch # rest)) \<noteq> []
        then Some (takeWhile id_char (drop 7 (ch # rest)))
      else if prefix ''/reel/'' (ch # rest) \<and> takeWhile id_char (drop 6 (ch # rest)) \<noteq> []
        then Some (takeWhile id_char (drop 6 (ch # rest)))
      else reel_id_of_url rest)"

definition getCurrentReelId :: "'w page \<Rightarrow> 'w \<Rightarrow> string option" where
  "getCurrentReelId p w =
     (case page_url p w of Ok u \<Rightarrow> reel_id_of_url u | Thrown \<Rightarrow> None)"

text \<open>
  \<open>verifyNavigation\<close>. \<open>waitedTime\<close> counts the nominal 300 ms of each round;
  \<open>maxWaitTime\<close> is a whole number of milliseconds. Both are numbers of the
  language, that is doubles, and whole numbers up to \<open>2^53\<close> are doubles exactly.

  The test \<open>waitedTime > maxWaitTime * 0.7\<close> multiplies in floating point. The
  literal \<open>0.7\<close> is the double \<open>6305039478318694 / 2^53\<close>, and the product is the
  exact product rounded to the nearest double, that is to 53 significant bits, a
  tie going to the even neighbour. \<open>round53\<close> rounds a natural number that way (the
  result is again a natural number), so the product is
  \<open>round53 (maxWaitTime * 6305039478318694) / 2^53\<close>: dividing by a power of two is
  exact. For the two bounds the source uses, 8000 and 6000, the product is 5600 and
  4200; for 21000 it is just below 14700.
\<close>

fun bit_length :: "nat \<Rightarrow> nat" where
  "bit_length n = (if n = 0 then 0 else Suc (bit_length (n div 2)))"

definition round53 :: "nat \<Rightarrow> nat" where
  "round53 n =
     (let e = bit_length n - 53;
          q = n div 2 ^ e;
          r = n mod 2 ^ e
      in if 2 * r > 2 ^ e \<or> (2 * r = 2 ^ e \<and> odd q) then (q + 1) * 2 ^ e else q * 2 ^ e)"

definition seven_tenths :: nat where
  "seven_tenths = 6305039478318694"

text \<open>\<open>waitedTime > maxWaitTime * 0.7\<close>.\<close>

definition past_70_percent :: "nat \<Rightarrow> nat \<Rightarrow> bool" where
  "past_70_percent waitedTime maxWaitTime =
     (waitedTime * 2 ^ 53 > round53 (maxWaitTime * seven_tenths))"

definition video_selector :: string where
  "video_selector = ''video[src], video[srcset]''"

text \<open>
  The video check of a round: \<open>try { videoEl = await page.$(...); if (videoEl &&
  waitedTime > 2000) { if (waitedTime > maxWaitTime * 0.7) return true } } catch {}\<close>.
  A query that raises or finds nothing accepts nothing.
\<close>

definition video_accepts :: "nat option res \<Rightarrow> nat \<Rightarrow> nat \<Rightarrow> bool" where
  "video_accepts videoEl waitedTime maxWaitTime =
     (case videoEl of
        Ok (Some el) \<Rightarrow> waitedTime > 2000 \<and> past_70_percent waitedTime maxWaitTime
      | _ \<Rightarrow> False)"

function verify_loop :: "'w page \<Rightarrow> string \<Rightarrow> nat \<Rightarrow> nat \<Rightarrow> 'w \<Rightarrow> bool \<times> 'w" where
  "verify_loop p currentReelId maxWaitTime waitedTime w =
     (if waitedTime < maxWaitTime then
        let w1 = randomDelay p 300 400 w;
            waited = waitedTime + 300;
            newReelId = getCurrentReelId p w1
        in
          if newReelId \<noteq> None \<and> newReelId \<noteq> Some currentReelId then (True, w1)
          else
            let q = query p video_selector w1 in
            if video_accepts (fst q) waited maxWaitTime then (True, snd q)
            else verify_loop p currentReelId maxWaitTime waited (snd q)
      else (False, w))"
  by pat_completeness auto
termination
  by (relation "measure (\<lambda>(p, currentReelId, maxWaitTime, waitedTime, w).
        maxWaitTime - waitedTime)") auto

definition verifyNavigation :: "'w page \<Rightarrow> string \<Rightarrow> nat \<Rightarrow> 'w \<Rightarrow> bool \<times> 'w" where
  "verifyNavigation p currentReelId maxWaitTime w =
     verify_loop p currentReelId maxWaitTime 0 w"

definition default_maxWaitTime :: nat where
  "default_maxWaitTime = 8000"

definition verified :: "'w page \<Rightarrow> string \<Rightarrow> nat \<Rightarrow> 'w \<Rightarrow> bool res \<times> 'w" where
  "verified p currentReelId maxWaitTime w =
     (case verifyNavigation p currentReelId maxWaitTime w of (b, w') \<Rightarrow> (Ok b, w'))"

text \<open>
  The loop shared by the three strategies with retries:
  \<open>for (attempt = 1; attempt <= maxRetries; attempt++) { try { ...; if (verified)
  return true; if (attempt < maxRetries) delay } catch { if (attempt < maxRetries)
  delay } } return false\<close>. The body yields \<open>Ok True\<close> where the source returns
  \<open>true\<close>; a body that yields \<open>Ok False\<close> or raises is followed by the same delay.
\<close>

function attempt_loop ::
  "'w page \<Rightarrow> ('w \<Rightarrow> bool res \<times> 'w) \<Rightarrow> nat \<Rightarrow> nat \<Rightarrow> nat \<Rightarrow> nat \<Rightarrow> 'w \<Rightarrow> bool \<times> 'w" where
  "attempt_loop p body lo hi maxRetries attempt w =
     (if attempt \<le> maxRetries then
        (case body w of
           (Ok True, w1) \<Rightarrow> (True, w1)
         | (_, w1) \<Rightarrow>
             attempt_loop p body lo hi maxRetries (attempt + 1)
               (if attempt < maxRetries then randomDelay p lo hi w1 else w1))
      else (False, w))"
  by pat_completeness auto
termination
  by (relation "measure (\<lambda>(p, body, lo, hi, maxRetries, attempt, w).
        Suc maxRetries - attempt)") auto

definition key_attempt :: "'w page \<Rightarrow> string \<Rightarrow> string \<Rightarrow> nat \<Rightarrow> 'w \<Rightarrow> bool res \<times> 'w" where
  "key_attempt p key currentReelId maxWaitTime =
     and_then (focus p ''body'') (\<lambda>_.
     and_then (delay p 100 200) (\<lambda>_.
     and_then (keyboard_press p key) (\<lambda>_.
     verified p currentReelId maxWaitTime)))"

definition navigateWithArrowDown :: "'w page \<Rightarrow> string \<Rightarrow> nat \<Rightarrow> 'w \<Rightarrow> bool \<times> 'w" where
  "navigateWithArrowDown p currentReelId maxRetries w =
     attempt_loop p (key_attempt p ''ArrowDown'' currentReelId default_maxWaitTime)
       1000 2000 maxRetries 1 w"

definition navigateWithArrowRight :: "'w page \<Rightarrow> string \<Rightarrow> nat \<Rightarrow> 'w \<Rightarrow> bool \<times> 'w" where
  "navigateWithArrowRight p currentReelId maxRetries w =
     attempt_loop p (key_attempt p ''ArrowRight'' currentReelId default_maxWaitTime)
       1000 2000 maxRetries 1 w"

definition buttonSelectors :: "string list" where
  \<open>buttonSelectors =
     [''button[aria-label*="Next"]'',
      ''button[aria-label*="next"]'',
      ''button[aria-label*="Next reel"]'',
      ''button[aria-label*="next reel"]'',
      ''svg[aria-label*="Next"]'',
      ''div[role="button"][aria-label*="Next"]'']\<close>

text \<open>
  The selector loop: the first selector that resolves to an element ends it; a
  selector that resolves to nothing, or whose query raises, passes to the next.
\<close>

fun find_button :: "'w page \<Rightarrow> string list \<Rightarrow> 'w \<Rightarrow> nat option \<times> 'w" where
  "find_button p [] w = (None, w)"
| "find_button p (selector # selectors) w =
     (case query p selector w of
        (Ok (Some nextButton), w') \<Rightarrow> (Some nextButton, w')
      | (_, w') \<Rightarrow> find_button p selectors w')"

definition button_attempt :: "'w page \<Rightarrow> string \<Rightarrow> 'w \<Rightarrow> bool res \<times> 'w" where
  "button_attempt p currentReelId w =
     (case find_button p buttonSelectors w of
        (Some nextButton, w') \<Rightarrow>
          and_then (scrollIntoView p nextButton) (\<lambda>_.
          and_then (delay p 200 400) (\<lambda>_.
          and_then (click p nextButton) (\<lambda>_.
          verified p currentReelId default_maxWaitTime))) w'
      | (None, w') \<Rightarrow> (Ok False, w'))"

definition navigateWithButtonClick :: "'w page \<Rightarrow> string \<Rightarrow> nat \<Rightarrow> 'w \<Rightarrow> bool \<times> 'w" where
  "navigateWithButtonClick p currentReelId maxRetries w =
     attempt_loop p (button_attempt p currentReelId) 1500 2500 maxRetries 1 w"

text \<open>The two strategies without retries: \<open>try { ... return true } catch {} return false\<close>.\<close>

definition or_false :: "bool res \<times> 'w \<Rightarrow> bool \<times> 'w" where
  "or_false r = (case r of (Ok b, w) \<Rightarrow> (b, w) | (Thrown, w) \<Rightarrow> (False, w))"

definition swipe_attempt :: "'w page \<Rightarrow> string \<Rightarrow> 'w \<Rightarrow> bool res \<times> 'w" where
  "swipe_attempt p currentReelId =
     and_then (query p ''video'') (\<lambda>videoEl.
       case videoEl of
         None \<Rightarrow> (\<lambda>w. (Ok False, w))
       | Some el \<Rightarrow>
           and_then (boundingBox p el) (\<lambda>bx.
             case bx of
               None \<Rightarrow> (\<lambda>w. (Ok False, w))
             | Some b \<Rightarrow>
                 (let startX = box_x b + box_width b / 2;
                      startY = box_y b + box_height b / 2;
                      endY = box_y b + box_height b * (2 / 10)
                  in
                    and_then (mouse_move p startX startY 1) (\<lambda>_.
                    and_then (mouse_down p) (\<lambda>_.
                    and_then (delay p 100 200) (\<lambda>_.
                    and_then (mouse_move p startX endY 10) (\<lambda>_.
                    and_then (delay p 100 200) (\<lambda>_.
                    and_then (mouse_up p) (\<lambda>_.
                    verified p currentReelId default_maxWaitTime)))))))))"

definition navigateWithSwipe :: "'w page \<Rightarrow> string \<Rightarrow> 'w \<Rightarrow> bool \<times> 'w" where
  "navigateWithSwipe p currentReelId w = or_false (swipe_attempt p currentReelId w)"

definition navigateWithPageDown :: "'w page \<Rightarrow> string \<Rightarrow> 'w \<Rightarrow> bool \<times> 'w" where
  "navigateWithPageDown p currentReelId w =
     or_false (key_attempt p ''PageDown'' currentReelId 6000 w)"

text \<open>
  \<open>navigateToNextReel\<close>: \<open>for (const strategy of strategies) { try { if (await
  strategy()) return true } catch {} } return false\<close>. The loop is written for any
  list of strategies, each of which may return a boolean or raise.
\<close>

fun try_strategies :: "('w \<Rightarrow> bool res \<times> 'w) list \<Rightarrow> 'w \<Rightarrow> bool \<times> 'w" where
  "try_strategies [] w = (False, w)"
| "try_strategies (strategy # strategies) w =
     (case strategy w of
        (Ok True, w') \<Rightarrow> (True, w')
      | (_, w') \<Rightarrow> try_strategies strategies w')"

definition returning :: "('w \<Rightarrow> bool \<times> 'w) \<Rightarrow> 'w \<Rightarrow> bool res \<times> 'w" where
  "returning f w = (case f w of (b, w') \<Rightarrow> (Ok b, w'))"

definition strategies :: "'w page \<Rightarrow> string \<Rightarrow> nat \<Rightarrow> ('w \<Rightarrow> bool res \<times> 'w) list" where
  "strategies p currentReelId maxRetries =
     [returning (navigateWithArrowDown p currentReelId maxRetries),
      returning (navigateWithArrowRight p currentReelId maxRetries),
      returning (navigateWithButtonClick p currentReelId maxRetries),
      returning (navigateWithSwipe p currentReelId),
      returning (navigateWithPageDown p currentReelId)]"

definition navigateToNextReel :: "'w page \<Rightarrow> nat \<Rightarrow> 'w \<Rightarrow> bool \<times> 'w" where
  "navigateToNextReel p maxRetries w =
     (case getCurrentReelId p w of
        None \<Rightarrow> (False, w)
      | Some currentReelId \<Rightarrow> try_strategies (strategies p currentReelId maxRetries) w)"

section \<open>Notions used to state the navigation properties\<close>

text \<open>
  The state in which strategy number \<open>i\<close> starts: the state left by the strategies
  before it, run one after the other.
\<close>

definition state_before :: "('w \<Rightarrow> bool res \<times> 'w) list \<Rightarrow> nat \<Rightarrow> 'w \<Rightarrow> 'w" where
  "state_before ss i w = foldl (\<lambda>w' s. snd (s w')) w (take i ss)"

definition succeeds_at :: "('w \<Rightarrow> bool res \<times> 'w) list \<Rightarrow> nat \<Rightarrow> 'w \<Rightarrow> bool" where
  "succeeds_at ss i w = (fst ((ss ! i) (state_before ss i w)) = Ok True)"

text \<open>
  What an attempt of a strategy has to achieve, said operation by operation. The
  key strategies: \<open>body\<close> takes the focus, the key is pressed, and the verification
  that follows returns true; an operation that raises ends the attempt without
  success.
\<close>

definition key_verified :: "'w page \<Rightarrow> string \<Rightarrow> string \<Rightarrow> nat \<Rightarrow> 'w \<Rightarrow> bool" where
  "key_verified p key currentReelId maxWaitTime w =
     (case focus p ''body'' w of
        (Thrown, w1) \<Rightarrow> False
      | (Ok u, w1) \<Rightarrow>
          (case keyboard_press p key (randomDelay p 100 200 w1) of
             (Thrown, w2) \<Rightarrow> False
           | (Ok u, w2) \<Rightarrow> fst (verifyNavigation p currentReelId maxWaitTime w2)))"

text \<open>
  The selectors are queried in the order of the list, each in the state the query
  before it left; \<open>resolves_at\<close> says that selector number \<open>i\<close> finds \<open>nextButton\<close>.
\<close>

definition selector_state :: "'w page \<Rightarrow> string list \<Rightarrow> nat \<Rightarrow> 'w \<Rightarrow> 'w" where
  "selector_state p selectors i w = foldl (\<lambda>w' selector. snd (query p selector w')) w (take i selectors)"

definition resolves_at :: "'w page \<Rightarrow> string list \<Rightarrow> nat \<Rightarrow> 'w \<Rightarrow> nat option" where
  "resolves_at p selectors i w =
     (case fst (query p (selectors ! i) (selector_state p selectors i w)) of
        Ok (Some nextButton) \<Rightarrow> Some nextButton
      | _ \<Rightarrow> None)"

text \<open>
  The button strategy, from the state \<open>w\<close> in which \<open>nextButton\<close> was found: the button
  is scrolled into view and clicked, and the verification that follows returns
  true.
\<close>

definition click_verified :: "'w page \<Rightarrow> string \<Rightarrow> nat \<Rightarrow> 'w \<Rightarrow> bool" where
  "click_verified p currentReelId nextButton w =
     (case scrollIntoView p nextButton w of
        (Thrown, w1) \<Rightarrow> False
      | (Ok u, w1) \<Rightarrow>
          (case click p nextButton (randomDelay p 200 400 w1) of
             (Thrown, w2) \<Rightarrow> False
           | (Ok u, w2) \<Rightarrow> fst (verifyNavigation p currentReelId default_maxWaitTime w2)))"

definition button_verified :: "'w page \<Rightarrow> string \<Rightarrow> 'w \<Rightarrow> bool" where
  "button_verified p currentReelId w =
     (case find_button p buttonSelectors w of
        (None, w1) \<Rightarrow> False
      | (Some nextButton, w1) \<Rightarrow> click_verified p currentReelId nextButton w1)"

text \<open>
  The swipe: a video element with a bounding box is found, the mouse goes to the
  middle of the box, is pressed, moved up to a fifth of the height in ten steps and
  released, and the verification that follows returns true.
\<close>

definition gesture_verified :: "'w page \<Rightarrow> string \<Rightarrow> box \<Rightarrow> 'w \<Rightarrow> bool" where
  "gesture_verified p currentReelId b w =
     (case mouse_move p (box_x b + box_width b / 2) (box_y b + box_height b / 2) 1 w of
        (Thrown, w1) \<Rightarrow> False
      | (Ok u, w1) \<Rightarrow>
     (case mouse_down p w1 of
        (Thrown, w2) \<Rightarrow> False
      | (Ok u, w2) \<Rightarrow>
     (case mouse_move p (box_x b + box_width b / 2) (box_y b + box_height b * (2 / 10)) 10
             (randomDelay p 100 200 w2) of
        (Thrown, w3) \<Rightarrow> False
      | (Ok u, w3) \<Rightarrow>
     (case mouse_up p (randomDelay p 100 200 w3) of
        (Thrown, w4) \<Rightarrow> False
      | (Ok u, w4) \<Rightarrow> fst (verifyNavigation p currentReelId default_maxWaitTime w4)))))"

definition swipe_verified :: "'w page \<Rightarrow> string \<Rightarrow> 'w \<Rightarrow> bool" where
  "swipe_verified p currentReelId w =
     (case query p ''video'' w of
        (Ok (Some videoEl), w1) \<Rightarrow>
          (case boundingBox p videoEl w1 of
             (Ok (Some b), w2) \<Rightarrow> gesture_verified p currentReelId b w2
           | _ \<Rightarrow> False)
      | _ \<Rightarrow> False)"

text \<open>
  The state in which attempt number \<open>k + 1\<close> of a strategy with retries starts:
  each attempt before it has run its body, whether that returned false or raised,
  and was followed by the delay between attempts.
\<close>

fun attempt_state ::
  "'w page \<Rightarrow> ('w \<Rightarrow> bool res \<times> 'w) \<Rightarrow> nat \<Rightarrow> nat \<Rightarrow> nat \<Rightarrow> nat \<Rightarrow> 'w \<Rightarrow> 'w" where
  "attempt_state p body lo hi maxRetries 0 w = w"
| "attempt_state p body lo hi maxRetries (Suc k) w =
     (let w1 = snd (body (attempt_state p body lo hi maxRetries k w))
      in if Suc k < maxRetries then randomDelay p lo hi w1 else w1)"

text \<open>
  The state at the check of round \<open>k\<close> of a verification (rounds count from 0): each
  earlier round waited and queried the video element, this round has waited.
\<close>

fun poll_state :: "'w page \<Rightarrow> nat \<Rightarrow> 'w \<Rightarrow> 'w" where
  "poll_state p 0 w = randomDelay p 300 400 w"
| "poll_state p (Suc k) w =
     poll_state p k (snd (query p video_selector (randomDelay p 300 400 w)))"

definition id_changed :: "'w page \<Rightarrow> string \<Rightarrow> 'w \<Rightarrow> bool" where
  "id_changed p currentReelId w =
     (case getCurrentReelId p w of None \<Rightarrow> False | Some newReelId \<Rightarrow> newReelId \<noteq> currentReelId)"

definition video_loaded :: "'w page \<Rightarrow> 'w \<Rightarrow> bool" where
  "video_loaded p w =
     (case fst (query p video_selector w) of Ok (Some videoEl) \<Rightarrow> True | _ \<Rightarrow> False)"

text \<open>
  Round \<open>k\<close> ends at the nominal time \<open>300 * (k + 1)\<close>. It accepts when the identifier
  has changed, or when a loaded video element is there and the time is past 2000 ms
  and past the product of the bound and \<open>0.7\<close>.
\<close>

definition round_accepts :: "'w page \<Rightarrow> string \<Rightarrow> nat \<Rightarrow> nat \<Rightarrow> 'w \<Rightarrow> bool" where
  "round_accepts p currentReelId maxWaitTime k w =
     (id_changed p currentReelId (poll_state p k w) \<or>
      video_loaded p (poll_state p k w) \<and>
        300 * (k + 1) > 2000 \<and> past_70_percent (300 * (k + 1)) maxWaitTime)"

text \<open>
  A simulated browser for the closed examples. Its state is the current URL and the
  log of the keys pressed, the clicks and the swipes. The action \<open>advancing\<close> (a key,
  \<open>click\<close> or \<open>swipe\<close>) moves from reel \<open>A\<close> to reel \<open>B\<close>; an element query
  raises when \<open>raises\<close> is set, and otherwise finds element 0 for the selectors in
  \<open>present\<close> and nothing for the others; an element has the unit box; waiting
  changes nothing.
\<close>

record sim =
  sim_url :: string
  sim_log :: "string list"

definition sim_start :: sim where
  "sim_start = \<lparr>sim_url = ''/reel/A'', sim_log = []\<rparr>"

definition sim_act :: "string \<Rightarrow> string \<Rightarrow> sim \<Rightarrow> sim" where
  "sim_act advancing action w =
     w\<lparr>sim_url := (if action = advancing then ''/reel/B'' else sim_url w),
       sim_log := sim_log w @ [action]\<rparr>"

definition sim_page :: "string \<Rightarrow> bool \<Rightarrow> string list \<Rightarrow> sim page" where
  "sim_page advancing raises present =
     \<lparr>page_url = (\<lambda>w. Ok (sim_url w)),
      focus = (\<lambda>selector w. (Ok (), w)),
      keyboard_press = (\<lambda>key w. (Ok (), sim_act advancing key w)),
      query = (\<lambda>selector w.
         (if raises then Thrown else Ok (if selector \<in> set present then Some 0 else None), w)),
      scrollIntoView = (\<lambda>el w. (Ok (), w)),
      click = (\<lambda>el w. (Ok (), sim_act advancing ''click'' w)),
      boundingBox = (\<lambda>el w.
         (Ok (Some \<lparr>box_x = 0, box_y = 0, box_width = 1, box_height = 1\<rparr>), w)),
      mouse_move = (\<lambda>x y steps w. (Ok (), w)),
      mouse_down = (\<lambda>w. (Ok (), w)),
      mouse_up = (\<lambda>w. (Ok (), sim_act advancing ''swipe'' w)),
      randomDelay = (\<lambda>lo hi w. w)\<rparr>"

definition next_svg :: string where
  \<open>next_svg = ''svg[aria-label*="Next"]''\<close>
section \<open>The scrape loop: backoff delay and failure counters\<close>

text \<open>
  The delay computed after a failed advance, before the jitter is added:
  \<open>Math.min(baseDelay * Math.pow(2, consecutiveNavigationFailures - 1), maxDelay)\<close>.
  Powers of two and their products with 2000 are exact in floating point, and a
  product too large for it becomes \<open>Infinity\<close>, whose minimum with \<open>maxDelay\<close> is
  \<open>maxDelay\<close> as well; the rationals give the same values.
\<close>

definition baseDelay :: rat where
  "baseDelay = 2000"

definition maxDelay :: rat where
  "maxDelay = 15000"

definition exponentialDelay :: "nat \<Rightarrow> rat" where
  "exponentialDelay consecutiveNavigationFailures =
     baseDelay * 2 powi (int consecutiveNavigationFailures - 1)"

definition backoff_delay :: "nat \<Rightarrow> rat" where
  "backoff_delay consecutiveNavigationFailures =
     min (exponentialDelay consecutiveNavigationFailures) maxDelay"

text \<open>
  The counters of \<open>scrapeReelsFeed\<close> and what one pass through the body of its
  \<open>while\<close> loop does to them. Everything the body learns from the browser, the
  collector and the storage is an input of the pass: whether the page is still a
  reel page, whether the recovery navigation raises, how many captured reels the
  drain saved, what became of the current reel, whether the advance and its retry
  succeeded, and where, if anywhere, an exception left the \<open>try\<close> block.
\<close>

record counters =
  reelsCollected :: nat
  navigationFailures :: nat
  consecutiveNavigationFailures :: nat

definition maxFailures :: nat where
  "maxFailures = 5"

definition maxConsecutiveNavigationFailures :: nat where
  "maxConsecutiveNavigationFailures = 3"

text \<open>
  The current reel: no record with a \<open>post_id\<close>; a record already among this
  session's \<open>reels\<close>; a record that \<open>savePost\<close> saved; a record that \<open>savePost\<close> did not
  save (a duplicate in the CSV, no storage, or a save that raised).
\<close>

datatype extraction = NoReelData | AlreadyInSession | Saved | NotSaved

text \<open>
  Where an exception can leave the \<open>try\<close> block: before any counter is touched
  (the app prompt, the suspension check and its \<open>AccountSuspendedError\<close>), in the like
  after a save (before the counters are updated), in the watch delay after them.
\<close>

datatype throw_point = ThrownEarly | ThrownAtLike | ThrownAtWatch

record iteration =
  onReelPage :: bool
  recoveryThrows :: bool
  thrown :: "throw_point option"
  drained :: nat
  extraction :: extraction
  navigated :: bool
  retryNavigated :: bool

text \<open>The \<open>catch\<close> of the loop body: both counters go up by one.\<close>

definition catch_error :: "counters \<Rightarrow> counters" where
  "catch_error c =
     c\<lparr>navigationFailures := navigationFailures c + 1,
       consecutiveNavigationFailures := consecutiveNavigationFailures c + 1\<rparr>"

text \<open>The part from \<open>// Navigate to next reel\<close> to the end of the \<open>try\<close> block.\<close>

definition advance :: "nat \<Rightarrow> iteration \<Rightarrow> counters \<Rightarrow> counters" where
  "advance reelsToCollect it c =
     (if reelsCollected c < reelsToCollect then
        (if \<not> navigated it then
           (let c1 = c\<lparr>consecutiveNavigationFailures := consecutiveNavigationFailures c + 1,
                        navigationFailures := navigationFailures c + 1\<rparr>
            in if consecutiveNavigationFailures c1 < maxConsecutiveNavigationFailures
                  \<and> retryNavigated it
               then c1\<lparr>consecutiveNavigationFailures := 0,
                        navigationFailures := max 0 (navigationFailures c1 - 1)\<rparr>
               else c1)
         else c\<lparr>consecutiveNavigationFailures := 0\<rparr>)
      else c)"

text \<open>
  One pass through the loop body. The boolean is true when the pass ends in
  \<open>break\<close>. The drain saves a captured reel only while \<open>reelsCollected <
  reelsToCollect\<close>, and at most three.
\<close>

definition loop_body :: "nat \<Rightarrow> iteration \<Rightarrow> counters \<Rightarrow> counters \<times> bool" where
  "loop_body reelsToCollect it c =
     (if thrown it = Some ThrownEarly then (catch_error c, False)
      else if \<not> onReelPage it then
        (if recoveryThrows it
         then (c\<lparr>navigationFailures := navigationFailures c + 1\<rparr>, True)
         else (c\<lparr>consecutiveNavigationFailures := consecutiveNavigationFailures c + 1\<rparr>, False))
      else
        let c1 = c\<lparr>reelsCollected :=
                     reelsCollected c +
                       min (drained it) (min 3 (reelsToCollect - reelsCollected c))\<rparr>
        in case extraction it of
             NoReelData \<Rightarrow>
               (advance reelsToCollect it
                  (c1\<lparr>navigationFailures := navigationFailures c1 + 1\<rparr>), False)
           | AlreadyInSession \<Rightarrow> (advance reelsToCollect it c1, False)
           | NotSaved \<Rightarrow>
               (advance reelsToCollect it (c1\<lparr>navigationFailures := 0\<rparr>), False)
           | Saved \<Rightarrow>
               if thrown it = Some ThrownAtLike then (catch_error c1, False)
               else
                 let c2 = c1\<lparr>reelsCollected := reelsCollected c1 + 1,
                              navigationFailures := 0,
                              consecutiveNavigationFailures := 0\<rparr>
                 in if thrown it = Some ThrownAtWatch then (catch_error c2, False)
                    else (advance reelsToCollect it c2, False))"

definition loop_condition :: "nat \<Rightarrow> counters \<Rightarrow> bool" where
  "loop_condition reelsToCollect c =
     (reelsCollected c < reelsToCollect \<and>
      navigationFailures c < maxFailures \<and>
      consecutiveNavigationFailures c < maxConsecutiveNavigationFailures)"

text \<open>The loop over the passes of a session, as far as the list of inputs goes.\<close>

fun scrape_loop :: "nat \<Rightarrow> iteration list \<Rightarrow> counters \<Rightarrow> counters" where
  "scrape_loop reelsToCollect [] c = c"
| "scrape_loop reelsToCollect (it # its) c =
     (if loop_condition reelsToCollect c then
        (case loop_body reelsToCollect it c of
           (c', True) \<Rightarrow> c'
         | (c', False) \<Rightarrow> scrape_loop reelsToCollect its c')
      else c)"

definition initial_counters :: counters where
  "initial_counters =
     \<lparr>reelsCollected = 0, navigationFailures = 0, consecutiveNavigationFailures = 0\<rparr>"

text \<open>
  A pass resets \<open>navigationFailures\<close> when the current reel went to \<open>savePost\<close> and the
  pass got as far as the assignment \<open>navigationFailures = 0\<close>.
\<close>

definition resets_failures :: "iteration \<Rightarrow> bool" where
  "resets_failures it =
     (thrown it \<noteq> Some ThrownEarly \<and> onReelPage it \<and>
      (extraction it = NotSaved \<or> extraction it = Saved \<and> thrown it \<noteq> Some ThrownAtLike))"

text \<open>
  A pass in which the advance call is made and exhausts all strategies, and the
  retry, if made, fails too.
\<close>

definition advance_fails :: "nat \<Rightarrow> iteration \<Rightarrow> counters \<Rightarrow> bool" where
  "advance_fails reelsToCollect it c =
     (thrown it = None \<and> onReelPage it \<and>
      reelsCollected (fst (loop_body reelsToCollect it c)) < reelsToCollect \<and>
      \<not> navigated it \<and> \<not> retryNavigated it)"

text \<open>Example passes: a reel that cannot be read, and a reel that is saved.\<close>

definition unreadable_pass :: iteration where
  "unreadable_pass =
     \<lparr>onReelPage = True, recoveryThrows = False, thrown = None, drained = 0,
      extraction = NoReelData, navigated = True, retryNavigated = False\<rparr>"

definition saved_pass :: iteration where
  "saved_pass =
     \<lparr>onReelPage = True, recoveryThrows = False, thrown = None, drained = 0,
      extraction = Saved, navigated = True, retryNavigated = False\<rparr>"

definition stuck_pass :: iteration where
  "stuck_pass =
     \<lparr>onReelPage = True, recoveryThrows = False, thrown = None, drained = 0,
      extraction = AlreadyInSession, navigated = False, retryNavigated = False\<rparr>"

section \<open>ReelDataTransformer\<close>









section \<open>HashtagExtractor.merge\<close>







section \<open>Notions and examples for the merge properties\<close>










section \<open>The scrape loop: resolving and persisting the current reel\<close>

text \<open>
  The part of a pass between the screenshot and the advance. The current reel is
  taken from the collector when the identifier read from the URL is cached, and
  from the DOM fallback otherwise. \<open>domData\<close> is what \<open>DOMExtractor.extractReelData\<close>
  returned (an object or \<open>null\<close>; \<open>null\<close> also stands for a fallback that raised,
  which leaves \<open>reelData\<close> at \<open>null\<close>). The fallback is awaited, and packets
  intercepted meanwhile reach the collector before the fallback's record does:
  \<open>arrivals\<close> are those packets. The fallback's record is logged by its identifier
  and handed to \<open>addReel\<close> inside a \<open>try\<close>: a log line that raises skips the call,
  and an exception of \<open>addReel\<close> is caught there. The other log lines of this part
  of the pass convert the identifier and the user name of a record as well; a
  record on which that raises ends the pass at that line, in the \<open>catch\<close> of the
  loop, and these early ends are not followed here.
\<close>

definition deliver ::
  "(nat list \<Rightarrow> jsval option) \<Rightarrow> (string \<Rightarrow> string) \<Rightarrow> (jsval \<Rightarrow> bool) \<Rightarrow> packet list \<Rightarrow> reel_collector \<Rightarrow>
     reel_collector" where
  "deliver JSON_parse toLowerCase positive arrivals c =
     foldl (\<lambda>c' pkt. snd (sendDataToNode JSON_parse toLowerCase positive pkt c')) c arrivals"

definition dom_fallback :: "jsval \<Rightarrow> reel_collector \<Rightarrow> jsval \<times> reel_collector" where
  "dom_fallback domData c =
     (domData,
      if truthy domData \<and> truthy (post_id domData) \<and> \<not> toString_raises (post_id domData)
      then snd (addReel domData c) else c)"

definition resolve_reel ::
  "(nat list \<Rightarrow> jsval option) \<Rightarrow> (string \<Rightarrow> string) \<Rightarrow> (jsval \<Rightarrow> bool) \<Rightarrow> string option \<Rightarrow> jsval \<Rightarrow>
     packet list \<Rightarrow> reel_collector \<Rightarrow> jsval \<times> reel_collector" where
  "resolve_reel JSON_parse toLowerCase positive currentReelId domData arrivals c =
     (case currentReelId of
        Some i \<Rightarrow>
          if truthy (JStr i) \<and> hasReel (JStr i) c then (getReel (JStr i) c, c)
          else dom_fallback domData (deliver JSON_parse toLowerCase positive arrivals c)
      | None \<Rightarrow> dom_fallback domData (deliver JSON_parse toLowerCase positive arrivals c))"

text \<open>
  The record in \<open>reelData\<close> is the very object the collector holds when it was read
  from the collector, and when \<open>addReel\<close> has just inserted it; \<open>alias_key\<close> is then
  the key it is cached under. An assignment to a property of \<open>reelData\<close> changes
  the cached object as well; \<open>replace_entry\<close> writes the changed record back.
\<close>

definition alias_key ::
  "(nat list \<Rightarrow> jsval option) \<Rightarrow> (string \<Rightarrow> string) \<Rightarrow> (jsval \<Rightarrow> bool) \<Rightarrow> string option \<Rightarrow> jsval \<Rightarrow>
     packet list \<Rightarrow> reel_collector \<Rightarrow> jsval option" where
  "alias_key JSON_parse toLowerCase positive currentReelId domData arrivals c =
     (if (case currentReelId of
            Some i \<Rightarrow> truthy (JStr i) \<and> hasReel (JStr i) c
          | None \<Rightarrow> False)
      then map_option JStr currentReelId
      else if truthy domData \<and> truthy (post_id domData) \<and>
              \<not> toString_raises (post_id domData) \<and>
              \<not> hasReel (post_id domData) (deliver JSON_parse toLowerCase positive arrivals c)
      then Some (post_id domData)
      else None)"

definition replace_entry :: "jsval \<Rightarrow> jsval \<Rightarrow> reel_collector \<Rightarrow> reel_collector" where
  "replace_entry k r c =
     c\<lparr>collectedReels := map (\<lambda>e. if fst e = k then (k, r) else e) (collectedReels c),
       networkReels := map (\<lambda>v. if post_id v = k then r else v) (networkReels c)\<rparr>"

text \<open>
  \<open>obj.k = v\<close> on a record. The records that reach these assignments are objects;
  another value is returned as it is.
\<close>

fun with_prop :: "string \<Rightarrow> jsval \<Rightarrow> jsval \<Rightarrow> jsval" where
  "with_prop k v (JObj fs) = JObj (AList.update k v fs)"
| "with_prop k v r = r"

text \<open>
  The two assignments to \<open>screenshot_path\<close>: on the current reel, the path of the
  screenshot when there is one and \<open>''\<close> otherwise; on a captured reel about to be
  saved, \<open>''\<close> when it has no path yet.
\<close>

definition attach_screenshot :: "string option \<Rightarrow> jsval \<Rightarrow> jsval" where
  "attach_screenshot screenshotPath reelData =
     (if truthy reelData
      then with_prop ''screenshot_path''
             (JStr (case screenshotPath of Some path \<Rightarrow> path | None \<Rightarrow> [])) reelData
      else reelData)"

definition default_screenshot :: "jsval \<Rightarrow> jsval" where
  "default_screenshot unsavedReel =
     (if \<not> truthy (jprop ''screenshot_path'' unsavedReel)
      then with_prop ''screenshot_path'' (JStr []) unsavedReel
      else unsavedReel)"

text \<open>
  \<open>reels.find(r => r.post_id === x.post_id)\<close>, and the session state the persisting
  steps work on: the \<open>reels\<close> array, the counter \<open>reelsCollected\<close>, the state of the
  storage, and, for stating what reaches the storage, the list of the records
  passed to \<open>savePost\<close> so far, each as it was at the call. \<open>savePost\<close> is a
  parameter: it answers whether it saved, or raises. \<open>storage\<close> is \<open>None\<close> when the
  scraper has no storage. \<open>reels\<close> holds each record as it was when pushed; the
  loop reads only the \<open>post_id\<close> of its elements, which no later assignment changes.
\<close>

definition in_session :: "jsval list \<Rightarrow> jsval \<Rightarrow> bool" where
  "in_session rs x = list_ex (\<lambda>r. post_id r = post_id x) rs"

record 'st session =
  reels :: "jsval list"
  collected :: nat
  store :: 'st
  offered :: "jsval list"

text \<open>
  The body of the drain loop for one captured reel. The assignment of the default
  \<open>screenshot_path\<close> changes the cached object, so the collector goes along.
\<close>

definition save_unsaved ::
  "('st \<Rightarrow> jsval \<Rightarrow> bool res \<times> 'st) option \<Rightarrow> nat \<Rightarrow> 'st session \<times> reel_collector \<Rightarrow> jsval \<Rightarrow>
     'st session \<times> reel_collector" where
  "save_unsaved storage reelsToCollect sc unsavedReel =
     (case storage of
        None \<Rightarrow> sc
      | Some savePost \<Rightarrow>
          if truthy (post_id unsavedReel) \<and> collected (fst sc) < reelsToCollect then
            let s = fst sc;
                r = default_screenshot unsavedReel;
                c = replace_entry (post_id unsavedReel) r (snd sc);
                saved = savePost (store s) r
            in if fst saved = Ok True
               then (s\<lparr>reels := reels s @ [r], collected := collected s + 1,
                       store := snd saved, offered := offered s @ [r]\<rparr>, c)
               else (s\<lparr>store := snd saved, offered := offered s @ [r]\<rparr>, c)
          else sc)"

definition drain ::
  "('st \<Rightarrow> jsval \<Rightarrow> bool res \<times> 'st) option \<Rightarrow> nat \<Rightarrow> 'st session \<times> reel_collector \<Rightarrow>
     'st session \<times> reel_collector" where
  "drain storage reelsToCollect sc =
     (if size_reels (snd sc) > 0 \<and> collected (fst sc) < reelsToCollect then
        let unsavedReels =
              filter (\<lambda>r. \<not> in_session (reels (fst sc)) r) (getAllReels (snd sc));
            maxUnsavedToProcess = min 3 (reelsToCollect - collected (fst sc))
        in if length unsavedReels > 0 \<and> length unsavedReels \<le> maxUnsavedToProcess
           then foldl (save_unsaved storage reelsToCollect) sc unsavedReels
           else sc
      else sc)"

text \<open>
  The current reel: what became of it (the input of the counter updates above) and
  the session after it.
\<close>

definition save_current ::
  "('st \<Rightarrow> jsval \<Rightarrow> bool res \<times> 'st) option \<Rightarrow> jsval \<Rightarrow> 'st session \<Rightarrow>
     extraction \<times> 'st session" where
  "save_current storage reelData s =
     (if truthy reelData \<and> truthy (post_id reelData) then
        (if \<not> in_session (reels s) reelData then
           (let s1 = s\<lparr>reels := reels s @ [reelData]\<rparr> in
            case storage of
              None \<Rightarrow> (NotSaved, s1)
            | Some savePost \<Rightarrow>
                let saved = savePost (store s1) reelData in
                (if fst saved = Ok True then Saved else NotSaved,
                 s1\<lparr>store := snd saved, offered := offered s1 @ [reelData]\<rparr>))
         else (AlreadyInSession, s))
      else (NoReelData, s))"

text \<open>
  Resolving, attaching the screenshot path (\<open>''\<close> when there is none), draining and
  saving, in the order of the source. The result is what became of the current
  reel, the session and the collector.
\<close>

definition persist_pass ::
  "(nat list \<Rightarrow> jsval option) \<Rightarrow> (string \<Rightarrow> string) \<Rightarrow> (jsval \<Rightarrow> bool) \<Rightarrow>
   ('st \<Rightarrow> jsval \<Rightarrow> bool res \<times> 'st) option \<Rightarrow> nat \<Rightarrow> string option \<Rightarrow> jsval \<Rightarrow>
     packet list \<Rightarrow> string option \<Rightarrow> 'st session \<times> reel_collector \<Rightarrow>
     extraction \<times> 'st session \<times> reel_collector" where
  "persist_pass JSON_parse toLowerCase positive storage reelsToCollect currentReelId domData arrivals
       screenshotPath sc =
     (let resolved = resolve_reel JSON_parse toLowerCase positive currentReelId domData arrivals (snd sc);
          alias = alias_key JSON_parse toLowerCase positive currentReelId domData arrivals (snd sc);
          reelData = attach_screenshot screenshotPath (fst resolved);
          c1 = (case alias of
                  Some k \<Rightarrow> if truthy (fst resolved) then replace_entry k reelData (snd resolved)
                            else snd resolved
                | None \<Rightarrow> snd resolved);
          drained_sc = drain storage reelsToCollect (fst sc, c1);
          saved = save_current storage reelData (fst drained_sc)
      in (fst saved, snd saved, snd drained_sc))"

text \<open>
  The events of a session as far as the collector and the storage are concerned:
  a packet intercepted between passes; a pass, with what it read (the identifier
  in the URL, the fallback's record, the packets arriving during the fallback, the
  screenshot path) and whether the like after a save raised, in which case
  \<open>reelsCollected\<close> is not incremented; and the start of a new scrape, which clears
  the collector and starts with an empty \<open>reels\<close> array and a zero counter.
\<close>

datatype cache_event =
    Intercepted packet
  | Pass "string option" jsval "packet list" "string option" bool
  | Reset

fun cache_step ::
  "(nat list \<Rightarrow> jsval option) \<Rightarrow> (string \<Rightarrow> string) \<Rightarrow> (jsval \<Rightarrow> bool) \<Rightarrow>
   ('st \<Rightarrow> jsval \<Rightarrow> bool res \<times> 'st) option \<Rightarrow> nat \<Rightarrow>
     'st session \<times> reel_collector \<Rightarrow> cache_event \<Rightarrow> 'st session \<times> reel_collector" where
  "cache_step JSON_parse toLowerCase positive storage reelsToCollect sc (Intercepted pkt) =
     (fst sc, snd (sendDataToNode JSON_parse toLowerCase positive pkt (snd sc)))"
| "cache_step JSON_parse toLowerCase positive storage reelsToCollect sc
       (Pass currentReelId domData arrivals screenshotPath likeThrows) =
     (case persist_pass JSON_parse toLowerCase positive storage reelsToCollect currentReelId domData
             arrivals screenshotPath sc of
        (outcome, s, c) \<Rightarrow>
          (if outcome = Saved \<and> \<not> likeThrows then s\<lparr>collected := collected s + 1\<rparr> else s, c))"
| "cache_step JSON_parse toLowerCase positive storage reelsToCollect sc Reset =
     ((fst sc)\<lparr>reels := [], collected := 0\<rparr>, clear (snd sc))"

definition cache_after ::
  "(nat list \<Rightarrow> jsval option) \<Rightarrow> (string \<Rightarrow> string) \<Rightarrow> (jsval \<Rightarrow> bool) \<Rightarrow>
   ('st \<Rightarrow> jsval \<Rightarrow> bool res \<times> 'st) option \<Rightarrow> nat \<Rightarrow> 'st \<Rightarrow> cache_event list \<Rightarrow>
     'st session \<times> reel_collector" where
  "cache_after JSON_parse toLowerCase positive storage reelsToCollect st events =
     foldl (cache_step JSON_parse toLowerCase positive storage reelsToCollect)
       (\<lparr>reels = [], collected = 0, store = st, offered = []\<rparr>, new_collector) events"

text \<open>
  What holds of the session and the collector after every event: the invariant of
  the collector, and an identifier in every record of \<open>reels\<close> and in every record
  passed to \<open>savePost\<close>.
\<close>

definition session_inv :: "'st session \<times> reel_collector \<Rightarrow> bool" where
  "session_inv sc =
     (collector_inv (snd sc) \<and>
      list_all (\<lambda>r. truthy (post_id r)) (reels (fst sc)) \<and>
      list_all (\<lambda>r. truthy (post_id r)) (offered (fst sc)))"

text \<open>A storage for the closed examples: it keeps what it is given and saves all.\<close>

definition keep_all :: "jsval list \<Rightarrow> jsval \<Rightarrow> bool res \<times> jsval list" where
  "keep_all st r = (Ok True, st @ [r])"

definition sample_passes :: "cache_event list" where
  "sample_passes =
     [Pass (Some ''Y'') (JObj [(''post_id'', JStr ''Y'')]) [] (Some ''shot.png'') False,
      Pass None (JObj [(''post_id'', JNull)]) [] None False]"

definition sample_events :: "cache_event list" where
  "sample_events = Intercepted (sample_packet sample_text) # sample_passes"

text \<open>
  The collector once the response \<open>sample_text\<close> has been parsed and processed, the
  session a scrape starts with, and the session after the two passes above.
\<close>

definition sample_cache :: reel_collector where
  "sample_cache =
     snd (processGraphQLResponse toLowerCase_ascii never_positive sample_value new_collector)"

definition sample_start :: "jsval list session" where
  "sample_start = \<lparr>reels = [], collected = 0, store = [], offered = []\<rparr>"

definition sample_session :: "jsval list session \<times> reel_collector" where
  "sample_session =
     foldl (cache_step JSON_parse_sample toLowerCase_ascii never_positive (Some keep_all) 5)
       (sample_start, sample_cache) sample_passes"

section \<open>Properties of the collector\<close>

lemma collector_inv_new: "collector_inv new_collector"
  by (simp add: collector_inv_def new_collector_def)

lemma collector_inv_clear: "collector_inv (clear c)"
  by (simp add: collector_inv_def clear_def)

lemma snd_addReel:
  "snd (addReel r c) =
     (if has_id r \<and> \<not> hasReel (post_id r) c
      then c\<lparr>collectedReels := collectedReels c @ [(post_id r, r)],
             networkReels := networkReels c @ [r]\<rparr>
      else c)"
  by (simp add: addReel_def has_id_def)

lemma collector_inv_addReel:
  assumes "collector_inv c"
  shows "collector_inv (snd (addReel r c))"
  using assms
  by (auto simp: collector_inv_def snd_addReel hasReel_def has_id_def)

lemma collector_inv_apply_op: "collector_inv c \<Longrightarrow> collector_inv (apply_op c op)"
  by (cases op) (simp_all add: collector_inv_addReel collector_inv_clear)

lemma collector_inv_foldl:
  "collector_inv c \<Longrightarrow> collector_inv (foldl apply_op c ops)"
  by (induction ops arbitrary: c) (simp_all add: collector_inv_apply_op)

lemma collector_inv_run_ops: "collector_inv (run_ops ops)"
  by (simp add: run_ops_def collector_inv_foldl collector_inv_new)

lemma first_by_id_snoc:
  "first_by_id seen (rs @ [r]) =
     first_by_id seen rs @
       (if post_id r \<in> set seen \<union> post_id ` set rs then [] else [r])"
  by (induction rs arbitrary: seen) auto

lemma first_by_id_ids:
  "set (map post_id (first_by_id seen rs)) = post_id ` set rs - set seen"
  by (induction rs arbitrary: seen) auto

lemma networkReels_run_ops: "networkReels (run_ops ops) = expected_reels ops"
proof (induction ops rule: rev_induct)
  case Nil
  show ?case by (simp add: run_ops_def expected_reels_def new_collector_def)
next
  case (snoc op ops)
  let ?c = "run_ops ops"
  let ?adds = "foldl adds_since_clear [] ops"
  have inv: "collector_inv ?c" by (rule collector_inv_run_ops)
  have step: "run_ops (ops @ [op]) = apply_op ?c op"
    by (simp add: run_ops_def)
  show ?case
  proof (cases op)
    case Clear
    then show ?thesis using step by (simp add: expected_reels_def clear_def)
  next
    case (AddReel r)
    have ids: "set (map fst (collectedReels ?c)) = post_id ` set (filter has_id ?adds)"
    proof -
      have "set (map fst (collectedReels ?c)) = set (map post_id (networkReels ?c))"
        using inv by (simp add: collector_inv_def)
      also have "\<dots> = set (map post_id (first_by_id [] (filter has_id ?adds)))"
        using snoc.IH by (simp add: expected_reels_def)
      also have "\<dots> = post_id ` set (filter has_id ?adds)"
        by (simp only: first_by_id_ids) simp
      finally show ?thesis .
    qed
    show ?thesis
    proof (cases "has_id r")
      case False
      then have "apply_op ?c op = ?c"
        using AddReel by (simp add: snd_addReel)
      moreover have "expected_reels (ops @ [op]) = expected_reels ops"
        using AddReel False by (simp add: expected_reels_def)
      ultimately show ?thesis using snoc.IH step by simp
    next
      case True
      have exp: "expected_reels (ops @ [op]) =
          expected_reels ops @
            (if post_id r \<in> post_id ` set (filter has_id ?adds) then [] else [r])"
        using AddReel True by (simp add: expected_reels_def first_by_id_snoc)
      have "networkReels (apply_op ?c op) =
          networkReels ?c @ (if hasReel (post_id r) ?c then [] else [r])"
        using AddReel True by (simp add: snd_addReel)
      also have "hasReel (post_id r) ?c \<longleftrightarrow> post_id r \<in> post_id ` set (filter has_id ?adds)"
        using ids by (simp add: hasReel_def)
      finally show ?thesis using exp snoc.IH step by simp
    qed
  qed
qed

lemma count_key_distinct:
  assumes "distinct ks" and "k \<in> set ks"
  shows "length (filter (\<lambda>x. x = k) ks) = 1"
proof -
  have "{x. x = k} \<inter> set ks = {k}" using assms(2) by auto
  then show ?thesis using assms(1) by (simp add: distinct_length_filter)
qed

lemma count_entries_collectedReels:
  assumes "collector_inv c" and "hasReel k c"
  shows "length (filter (\<lambda>e. fst e = k) (collectedReels c)) = 1"
proof -
  have "distinct (map fst (collectedReels c))"
    using assms(1) unfolding collector_inv_def by blast
  moreover have "k \<in> set (map fst (collectedReels c))"
    using assms(2) unfolding hasReel_def .
  ultimately have "length (filter (\<lambda>x. x = k) (map fst (collectedReels c))) = 1"
    by (rule count_key_distinct)
  then show ?thesis by (simp add: filter_map comp_def)
qed

lemma count_entries_networkReels:
  assumes "collector_inv c" and "hasReel k c"
  shows "length (filter (\<lambda>e. post_id e = k) (networkReels c)) = 1"
proof -
  have eq: "map fst (collectedReels c) = map post_id (networkReels c)"
    using assms(1) unfolding collector_inv_def by blast
  have "distinct (map fst (collectedReels c))"
    using assms(1) unfolding collector_inv_def by blast
  moreover have "k \<in> set (map fst (collectedReels c))"
    using assms(2) unfolding hasReel_def .
  ultimately have "length (filter (\<lambda>x. x = k) (map post_id (networkReels c))) = 1"
    unfolding eq by (rule count_key_distinct)
  then show ?thesis by (simp add: filter_map comp_def)
qed

lemma getReel_append_new:
  "\<not> hasReel k c \<Longrightarrow> truthy r \<Longrightarrow>
     getReel k (c\<lparr>collectedReels := collectedReels c @ [(k, r)], networkReels := ns\<rparr>) = r"
proof -
  assume absent: "\<not> hasReel k c" and tr: "truthy r"
  have "map_of (collectedReels c) k = None"
    using absent by (simp add: hasReel_def map_of_eq_None_iff)
  then show ?thesis using tr by (simp add: getReel_def map_add_def jor_def)
qed

lemma hasReel_after_addReel:
  "has_id r \<Longrightarrow> hasReel (post_id r) (snd (addReel r c))"
  by (simp add: snd_addReel hasReel_def)

lemma log_line_primitive: "list_all primitive vs \<Longrightarrow> log_line vs = Inr JUndefined"
proof -
  have "primitive v \<Longrightarrow> \<not> toString_raises v" for v by (cases v) simp_all
  then show "list_all primitive vs \<Longrightarrow> log_line vs = Inr JUndefined"
    by (auto simp: log_line_def list_all_iff list_ex_iff)
qed

lemma addReel_present:
  "has_id r \<Longrightarrow> hasReel (post_id r) c \<Longrightarrow> addReel r c = (log_line [post_id r], c)"
  by (simp add: addReel_def has_id_def)

text \<open>
  C10. After any sequence of \<open>addReel\<close> and \<open>clear\<close> calls on a fresh collector in
  which the identifiers are primitive values (strings, as the code has them),
  \<open>networkReels\<close> holds exactly the records the map holds, in the map's order, one per
  key and under its own \<open>post_id\<close>; it is the list of the first record for each
  identifier among the records added since the most recent \<open>clear\<close> (a later record
  with the same identifier never replaces it), and \<open>size()\<close> is its length.
\<close>

theorem collector_list_mirrors_map:
  assumes "primitive_ids ops"
  shows "networkReels (run_ops ops) = expected_reels ops \<and>
         getAllReels (run_ops ops) = networkReels (run_ops ops) \<and>
         map fst (collectedReels (run_ops ops)) = map post_id (networkReels (run_ops ops)) \<and>
         distinct (map fst (collectedReels (run_ops ops))) \<and>
         size_reels (run_ops ops) = length (networkReels (run_ops ops))"
proof -
  have inv: "collector_inv (run_ops ops)" by (rule collector_inv_run_ops)
  have "length (map snd (collectedReels (run_ops ops))) = length (networkReels (run_ops ops))"
    using inv by (simp only: collector_inv_def)
  then have "size_reels (run_ops ops) = length (networkReels (run_ops ops))"
    by (simp add: size_reels_def)
  moreover have "getAllReels (run_ops ops) = networkReels (run_ops ops)"
    using inv unfolding collector_inv_def getAllReels_def by blast
  moreover have "map fst (collectedReels (run_ops ops)) = map post_id (networkReels (run_ops ops))"
    using inv unfolding collector_inv_def by blast
  moreover have "distinct (map fst (collectedReels (run_ops ops)))"
    using inv unfolding collector_inv_def by blast
  ultimately show ?thesis
    using networkReels_run_ops [of ops] by blast
qed

text \<open>
  An example: two records with the identifier \<open>X\<close>, a record without identifier and
  one with the identifier \<open>Y\<close>; then the same after a \<open>clear\<close> in between.
\<close>

theorem collector_list_mirrors_map_witness:
  "primitive_ids sample_ops \<and>
   networkReels (run_ops sample_ops) = [sample_reel ''X'' 1, sample_reel ''Y'' 4] \<and>
   map fst (collectedReels (run_ops sample_ops)) = [JStr ''X'', JStr ''Y''] \<and>
   size_reels (run_ops sample_ops) = 2 \<and>
   primitive_ids (sample_ops @ [Clear, AddReel (sample_reel ''X'' 5)]) \<and>
   networkReels (run_ops (sample_ops @ [Clear, AddReel (sample_reel ''X'' 5)])) =
     [sample_reel ''X'' 5]"
proof -
  have h1: "primitive_ids sample_ops"
    by (simp add: primitive_ids_def sample_ops_def sample_reel_def post_id_def)
  have h2: "primitive_ids (sample_ops @ [Clear, AddReel (sample_reel ''X'' 5)])"
    by (simp add: primitive_ids_def sample_ops_def sample_reel_def post_id_def)
  have e1: "expected_reels sample_ops = [sample_reel ''X'' 1, sample_reel ''Y'' 4]"
    by (simp add: expected_reels_def sample_ops_def sample_reel_def has_id_def post_id_def)
  have e2: "expected_reels (sample_ops @ [Clear, AddReel (sample_reel ''X'' 5)]) =
      [sample_reel ''X'' 5]"
    by (simp add: expected_reels_def sample_ops_def sample_reel_def has_id_def post_id_def)
  have ids: "map post_id [sample_reel ''X'' 1, sample_reel ''Y'' 4] = [JStr ''X'', JStr ''Y'']"
    by (simp add: sample_reel_def post_id_def)
  show ?thesis
    using h1 h2 e1 e2 ids
      collector_list_mirrors_map [OF h1] collector_list_mirrors_map [OF h2]
    by simp
qed

text \<open>
  C1, as the code has it. For a record \<open>r\<close> whose \<open>post_id\<close> is a non-empty string
  \<open>i\<close>, two calls of \<open>addReel\<close> with \<open>r\<close> on a collector leave exactly one entry for
  \<open>i\<close> in the map and in the array; the second call changes nothing; the entry is
  \<open>r\<close> when \<open>i\<close> was not cached before and the record cached before otherwise. The
  second call evaluates to \<open>undefined\<close>: \<open>addReel\<close> does not report whether it
  inserted. So does the first, unless it inserts and its log line raises on a user
  name that has no string conversion; the record is cached all the same.
\<close>

theorem addReel_twice_one_entry:
  assumes "post_id r = JStr i" and "i \<noteq> []" and "collector_inv c"
  shows "fst (addReel r c) =
           (if \<not> hasReel (JStr i) c \<and>
               toString_raises (jor (jprop ''author_username'' r) (JStr ''unknown''))
            then Inl TypeError else Inr JUndefined) \<and>
         fst (addReel r (snd (addReel r c))) = Inr JUndefined \<and>
         snd (addReel r (snd (addReel r c))) = snd (addReel r c) \<and>
         length (filter (\<lambda>e. fst e = JStr i) (collectedReels (snd (addReel r c)))) = 1 \<and>
         length (filter (\<lambda>e. post_id e = JStr i) (networkReels (snd (addReel r c)))) = 1 \<and>
         getReel (JStr i) (snd (addReel r c)) =
           (if hasReel (JStr i) c then getReel (JStr i) c else r)"
proof -
  let ?c1 = "snd (addReel r c)"
  have obj: "truthy r" using assms(1) by (cases r) (simp_all add: post_id_def)
  then have id: "has_id r" using assms(1,2) by (simp add: has_id_def)
  have inv1: "collector_inv ?c1" using assms(3) by (rule collector_inv_addReel)
  have has1: "hasReel (JStr i) ?c1" using hasReel_after_addReel [OF id] assms(1) by simp
  have quiet: "log_line [post_id r] = Inr JUndefined"
    using assms(1) by (simp add: log_line_def)
  have second: "addReel r ?c1 = (Inr JUndefined, ?c1)"
    using has1 assms(1) addReel_present [OF id, of ?c1] quiet by simp
  have first: "fst (addReel r c) =
           (if \<not> hasReel (JStr i) c \<and>
               toString_raises (jor (jprop ''author_username'' r) (JStr ''unknown''))
            then Inl TypeError else Inr JUndefined)"
    using obj assms(1,2) by (simp add: addReel_def log_line_def)
  have entry: "getReel (JStr i) ?c1 = (if hasReel (JStr i) c then getReel (JStr i) c else r)"
    using obj id assms(1,2) by (simp add: snd_addReel getReel_append_new)
  show ?thesis
    using first second entry
      count_entries_collectedReels [OF inv1 has1]
      count_entries_networkReels [OF inv1 has1]
    by simp
qed

theorem addReel_twice_one_entry_witness:
  "post_id (sample_reel ''X'' 1) = JStr ''X'' \<and> ''X'' \<noteq> [] \<and>
   collector_inv new_collector \<and>
   fst (addReel (sample_reel ''X'' 1) new_collector) = Inr JUndefined \<and>
   snd (addReel (sample_reel ''X'' 1) (snd (addReel (sample_reel ''X'' 1) new_collector))) =
     snd (addReel (sample_reel ''X'' 1) new_collector) \<and>
   getReel (JStr ''X'') (snd (addReel (sample_reel ''X'' 1) new_collector)) =
     sample_reel ''X'' 1 \<and>
   post_id unloggable_reel = JStr ''X'' \<and>
   fst (addReel unloggable_reel new_collector) = Inl TypeError \<and>
   getReel (JStr ''X'') (snd (addReel unloggable_reel new_collector)) = unloggable_reel"
proof -
  have h1: "post_id (sample_reel ''X'' 1) = JStr ''X''"
    by (simp add: post_id_def sample_reel_def)
  have g1: "post_id unloggable_reel = JStr ''X''"
    by (simp add: post_id_def unloggable_reel_def)
  have h2: "''X'' \<noteq> []" by simp
  have h3: "collector_inv new_collector" by (rule collector_inv_new)
  have absent: "\<not> hasReel (JStr ''X'') new_collector"
    by (simp add: hasReel_def new_collector_def)
  have quiet: "\<not> toString_raises
      (jor (jprop ''author_username'' (sample_reel ''X'' 1)) (JStr ''unknown''))"
    by (simp add: sample_reel_def jor_def)
  have loud: "toString_raises
      (jor (jprop ''author_username'' unloggable_reel) (JStr ''unknown''))"
    by (simp add: unloggable_reel_def jor_def)
  show ?thesis
    using h1 g1 h2 h3 absent quiet loud
      addReel_twice_one_entry [OF h1 h2 h3] addReel_twice_one_entry [OF g1 h2 h3]
    by simp
qed

text \<open>
  The claim says the second call returns \<open>false\<close>. On a fresh collector the second
  call with the same record evaluates to \<open>undefined\<close>.
\<close>

theorem addReel_second_call_not_false:
  "fst (addReel (sample_reel ''X'' 1) (snd (addReel (sample_reel ''X'' 1) new_collector))) =
     Inr JUndefined \<and>
   Inr JUndefined \<noteq> (Inr (JBool False) :: js_error + jsval)"
  by (simp add: addReel_def sample_reel_def post_id_def hasReel_def new_collector_def
        log_line_def jor_def)

section \<open>Properties of the extraction pipeline\<close>

lemma falsy_quiet: "\<not> truthy v \<Longrightarrow> \<not> toString_raises v"
  by (cases v) simp_all

lemma toString_raises_jor: "toString_raises (jor u (JStr s)) = toString_raises u"
  by (cases "truthy u") (simp_all add: jor_def falsy_quiet)

lemma snd_collect: "snd (collect r c) = snd (addReel r c)"
proof (cases "truthy r \<and> truthy (post_id r)")
  case True
  then show ?thesis
    by (cases "addReel r c"; cases "fst (addReel r c)") (auto simp: collect_def)
next
  case False
  then show ?thesis by (auto simp: collect_def snd_addReel has_id_def)
qed

lemma collect_quiet:
  assumes "\<not> toString_raises (post_id r)"
    and "\<not> toString_raises (jprop ''author_username'' r)"
  shows "fst (collect r c) = Returned"
  using assms
  by (simp add: collect_def addReel_def log_line_def toString_raises_jor)

lemma collect_absent: "\<not> truthy r \<Longrightarrow> collect r c = (Returned, c)"
  by (simp add: collect_def)

lemma collector_inv_collect: "collector_inv c \<Longrightarrow> collector_inv (snd (collect r c))"
  by (simp add: snd_collect collector_inv_addReel)

lemma hasReel_addReel_mono: "hasReel k c \<Longrightarrow> hasReel k (snd (addReel r c))"
  by (simp add: snd_addReel hasReel_def)

lemma hasReel_collect_mono: "hasReel k c \<Longrightarrow> hasReel k (snd (collect r c))"
  by (simp add: snd_collect hasReel_addReel_mono)

lemma hasReel_collect:
  "truthy r \<Longrightarrow> truthy (post_id r) \<Longrightarrow> hasReel (post_id r) (snd (collect r c))"
  by (simp add: snd_collect hasReel_after_addReel has_id_def)

lemma feed_edges_step:
  "\<not> nullish edge \<Longrightarrow>
     feed_edges lc (edge # edges) c =
       (let r = extractReelFromGraphQLItem lc (jprop ''media'' (jprop ''node'' edge)) in
        if fst (collect r c) = Threw then collect r c
        else feed_edges lc edges (snd (collect r c)))"
  by (cases "collect (extractReelFromGraphQLItem lc (jprop ''media'' (jprop ''node'' edge))) c";
      cases "fst (collect (extractReelFromGraphQLItem lc (jprop ''media'' (jprop ''node'' edge))) c)")
     (auto simp: Let_def extractReelFromGraphQLItem_def collect_absent)

lemma media_objects_step:
  "media_objects lc (media # ms) c =
     (let r = extractReelFromGraphQLItem lc media in
      if fst (collect r c) = Threw then collect r c
      else media_objects lc ms (snd (collect r c)))"
  by (cases "collect (extractReelFromGraphQLItem lc media) c";
      cases "fst (collect (extractReelFromGraphQLItem lc media) c)")
     (auto simp: Let_def)

lemma collector_inv_feed_edges:
  "collector_inv c \<Longrightarrow> collector_inv (snd (feed_edges lc edges c))"
proof (induction edges arbitrary: c)
  case Nil
  then show ?case by simp
next
  case (Cons e es)
  show ?case
  proof (cases "nullish e")
    case True
    then show ?thesis using Cons.prems by simp
  next
    case False
    show ?thesis
      using Cons.prems Cons.IH collector_inv_collect
      by (simp add: feed_edges_step [OF False] Let_def del: feed_edges.simps)
  qed
qed

lemma hasReel_feed_edges_mono:
  "hasReel k c \<Longrightarrow> hasReel k (snd (feed_edges lc edges c))"
proof (induction edges arbitrary: c)
  case Nil
  then show ?case by simp
next
  case (Cons e es)
  show ?case
  proof (cases "nullish e")
    case True
    then show ?thesis using Cons.prems by simp
  next
    case False
    show ?thesis
      using Cons.prems Cons.IH hasReel_collect_mono
      by (simp add: feed_edges_step [OF False] Let_def del: feed_edges.simps)
  qed
qed

lemma collector_inv_media_objects:
  "collector_inv c \<Longrightarrow> collector_inv (snd (media_objects lc ms c))"
proof (induction ms arbitrary: c)
  case Nil
  then show ?case by simp
next
  case (Cons m ms)
  show ?case
    using Cons.prems Cons.IH collector_inv_collect
    by (simp add: media_objects_step Let_def del: media_objects.simps)
qed

lemma hasReel_media_objects_mono:
  "hasReel k c \<Longrightarrow> hasReel k (snd (media_objects lc ms c))"
proof (induction ms arbitrary: c)
  case Nil
  then show ?case by simp
next
  case (Cons m ms)
  show ?case
    using Cons.prems Cons.IH hasReel_collect_mono
    by (simp add: media_objects_step Let_def del: media_objects.simps)
qed

lemma collector_inv_processGraphQLResponse:
  assumes "collector_inv c"
  shows "collector_inv (snd (processGraphQLResponse lc positive parsedData c))"
  using assms
  by (auto simp: processGraphQLResponse_def Let_def collector_inv_collect
        collector_inv_feed_edges collector_inv_media_objects split: jsval.splits)

lemma hasReel_processGraphQLResponse_mono:
  assumes "hasReel k c"
  shows "hasReel k (snd (processGraphQLResponse lc positive parsedData c))"
  using assms
  by (auto simp: processGraphQLResponse_def Let_def hasReel_collect_mono
        hasReel_feed_edges_mono hasReel_media_objects_mono split: jsval.splits)

lemma collector_inv_parse_and_process:
  "collector_inv c \<Longrightarrow>
     collector_inv (snd (parse_and_process JSON_parse lc positive body c))"
  by (simp add: parse_and_process_def collector_inv_processGraphQLResponse split: option.splits)

lemma collector_inv_sendDataToNode:
  "collector_inv c \<Longrightarrow> collector_inv (snd (sendDataToNode JSON_parse lc positive pkt c))"
  by (simp add: sendDataToNode_def caught_def collector_inv_parse_and_process)

lemma truthy_jprop_object: "truthy (jprop k v) \<Longrightarrow> \<exists>fs. v = JObj fs"
  by (cases v) simp_all

lemma truthy_item_id_object: "truthy (item_id item) \<Longrightarrow> \<exists>fs. item = JObj fs"
  by (cases item) (simp_all add: item_id_def jor_def)

lemma extractReelDataFromItem_no_id:
  "\<not> truthy (item_id item) \<Longrightarrow> extractReelDataFromItem lc item = JNull"
  by (simp add: extractReelDataFromItem_def Let_def post_id_def item_id_def
        split: sum.splits)

lemma extractReelDataFromItem_id:
  assumes "extractFromGraphQL lc item = Inr h" and "truthy (item_id item)"
  shows "post_id (extractReelDataFromItem lc item) = item_id item"
    and "truthy (extractReelDataFromItem lc item)"
proof -
  obtain fs where "item = JObj fs" using truthy_item_id_object [OF assms(2)] by blast
  then have nn: "\<not> nullish item" by simp
  show "post_id (extractReelDataFromItem lc item) = item_id item"
    using assms nn
    by (simp add: extractReelDataFromItem_def Let_def post_id_def item_id_def)
  show "truthy (extractReelDataFromItem lc item)"
    using assms nn
    by (simp add: extractReelDataFromItem_def Let_def post_id_def item_id_def)
qed

text \<open>What the extractor returns for an item: nothing, or a record with the item's
  identifier and user name.\<close>

lemma extractReelDataFromItem_cases:
  "extractReelDataFromItem lc item = JNull \<or>
   post_id (extractReelDataFromItem lc item) = item_id item \<and>
   jprop ''author_username'' (extractReelDataFromItem lc item) = item_user item"
proof (cases "nullish item \<or> \<not> truthy (item_id item)")
  case True
  then have "extractReelDataFromItem lc item = JNull"
    by (auto simp: extractReelDataFromItem_no_id) (simp add: extractReelDataFromItem_def)
  then show ?thesis by simp
next
  case False
  show ?thesis
  proof (cases "extractFromGraphQL lc item")
    case (Inl e)
    then show ?thesis using False by (simp add: extractReelDataFromItem_def)
  next
    case (Inr h)
    have "jprop ''author_username'' (extractReelDataFromItem lc item) = item_user item"
      using Inr False
      by (simp add: extractReelDataFromItem_def Let_def post_id_def item_id_def item_user_def)
    then show ?thesis using extractReelDataFromItem_id(1) [OF Inr] False by simp
  qed
qed

lemma collect_loggable:
  assumes "loggable item"
  shows "fst (collect (extractReelFromGraphQLItem lc item) c) = Returned"
proof (cases "truthy item \<and> extractReelDataFromItem lc item \<noteq> JNull")
  case False
  then have "\<not> truthy (extractReelFromGraphQLItem lc item)"
    by (auto simp: extractReelFromGraphQLItem_def)
  then show ?thesis by (simp add: collect_absent)
next
  case True
  then have r: "extractReelFromGraphQLItem lc item = extractReelDataFromItem lc item"
    by (simp add: extractReelFromGraphQLItem_def)
  have "post_id (extractReelDataFromItem lc item) = item_id item \<and>
        jprop ''author_username'' (extractReelDataFromItem lc item) = item_user item"
    using extractReelDataFromItem_cases [of lc item] True by blast
  then show ?thesis
    using assms unfolding r by (simp add: collect_quiet loggable_def)
qed

lemma extractReelFromGraphQLItem_id:
  assumes "extractFromGraphQL lc item = Inr h" and "truthy (item_id item)"
  shows "post_id (extractReelFromGraphQLItem lc item) = item_id item"
    and "truthy (extractReelFromGraphQLItem lc item)"
proof -
  obtain fs where "item = JObj fs" using truthy_item_id_object [OF assms(2)] by blast
  then have "extractReelFromGraphQLItem lc item = extractReelDataFromItem lc item"
    by (simp add: extractReelFromGraphQLItem_def)
  then show "post_id (extractReelFromGraphQLItem lc item) = item_id item"
    and "truthy (extractReelFromGraphQLItem lc item)"
    using extractReelDataFromItem_id [OF assms] by simp_all
qed

lemma hasReel_collect_item:
  assumes "extractFromGraphQL lc item = Inr h" and "truthy (item_id item)"
  shows "hasReel (item_id item) (snd (collect (extractReelFromGraphQLItem lc item) c))"
  using hasReel_collect [of "extractReelFromGraphQLItem lc item" c]
    extractReelFromGraphQLItem_id [OF assms] assms(2)
  by simp

lemma hasReel_feed_edges:
  assumes "edge \<in> set edges" and "\<forall>e \<in> set edges. \<not> nullish e"
    and "\<forall>e \<in> set edges. jprop ''media'' (jprop ''node'' e) = item \<or>
           loggable (jprop ''media'' (jprop ''node'' e))"
    and "jprop ''media'' (jprop ''node'' edge) = item"
    and "extractFromGraphQL lc item = Inr h" and "truthy (item_id item)"
  shows "hasReel (item_id item) (snd (feed_edges lc edges c))"
  using assms(1,2,3)
proof (induction edges arbitrary: c)
  case Nil
  then show ?case by simp
next
  case (Cons e es)
  let ?r = "extractReelFromGraphQLItem lc (jprop ''media'' (jprop ''node'' e))"
  have nn: "\<not> nullish e" using Cons.prems(2) by simp
  show ?case
  proof (cases "jprop ''media'' (jprop ''node'' e) = item")
    case True
    have "hasReel (item_id item) (snd (collect (extractReelFromGraphQLItem lc item) c))"
      by (rule hasReel_collect_item [OF assms(5,6)])
    then show ?thesis
      using True
      by (simp add: feed_edges_step [OF nn] Let_def hasReel_feed_edges_mono
            del: feed_edges.simps)
  next
    case False
    then have "loggable (jprop ''media'' (jprop ''node'' e))" using Cons.prems(3) by simp
    then have ret: "fst (collect ?r c) = Returned" by (rule collect_loggable)
    have step: "feed_edges lc (e # es) c = feed_edges lc es (snd (collect ?r c))"
      using ret by (simp add: feed_edges_step [OF nn] Let_def del: feed_edges.simps)
    have "e \<noteq> edge" using False assms(4) by auto
    then have "edge \<in> set es" using Cons.prems(1) by simp
    then show ?thesis
      unfolding step using Cons.IH Cons.prems(2,3) by simp
  qed
qed

lemma hasReel_media_objects:
  assumes "item \<in> set ms" and "\<forall>m \<in> set ms. m = item \<or> loggable m"
    and "extractFromGraphQL lc item = Inr h" and "truthy (item_id item)"
  shows "hasReel (item_id item) (snd (media_objects lc ms c))"
  using assms(1,2)
proof (induction ms arbitrary: c)
  case Nil
  then show ?case by simp
next
  case (Cons m ms)
  let ?r = "extractReelFromGraphQLItem lc m"
  show ?case
  proof (cases "m = item")
    case True
    then show ?thesis
      using hasReel_collect_item [OF assms(3,4), of c]
      by (simp add: media_objects_step Let_def hasReel_media_objects_mono
            del: media_objects.simps)
  next
    case False
    then have "loggable m" using Cons.prems(2) by simp
    then have ret: "fst (collect ?r c) = Returned" by (rule collect_loggable)
    have step: "media_objects lc (m # ms) c = media_objects lc ms (snd (collect ?r c))"
      using ret by (simp add: media_objects_step Let_def del: media_objects.simps)
    show ?thesis unfolding step using False Cons by simp
  qed
qed

declare findMediaObjects.simps [simp del]

lemma looks_like_media_object: "looks_like_media v \<Longrightarrow> \<exists>fs. v = JObj fs"
  by (cases v) (simp_all add: looks_like_media_def)

lemma findMediaObjects_nonempty_object:
  "x \<in> set (findMediaObjects v depth) \<Longrightarrow> truthy v \<and> typeof_object v"
  by (subst (asm) findMediaObjects.simps) (auto split: if_splits)

lemma findMediaObjects_nested:
  assumes "looks_like_media item"
  shows "nested n obj item \<Longrightarrow> n + depth \<le> 5 \<Longrightarrow> item \<in> set (findMediaObjects obj depth)"
proof (induction n arbitrary: obj depth)
  case 0
  then have "obj = item" by simp
  moreover obtain fs where "item = JObj fs" using looks_like_media_object [OF assms] by blast
  ultimately show ?case
    using assms 0 by (subst findMediaObjects.simps) simp
next
  case (Suc n)
  from Suc.prems(1) obtain v where v: "v \<in> set (members obj)"
    and sub: "case v of JArr items \<Rightarrow> list_ex (\<lambda>x. nested n x item) items
              | _ \<Rightarrow> nested n v item"
    by (auto simp: list_ex_iff)
  have obj: "truthy obj \<and> typeof_object obj" using v by (cases obj) simp_all
  have d: "\<not> depth > 5" and d': "n + (depth + 1) \<le> 5" using Suc.prems(2) by simp_all
  define F where "F = (\<lambda>v. case v of
            JArr items \<Rightarrow> concat (map (\<lambda>item. findMediaObjects item (depth + 1)) items)
          | _ \<Rightarrow> if truthy v \<and> typeof_object v then findMediaObjects v (depth + 1) else [])"
  have inF: "item \<in> set (F v)"
  proof (cases "isArray v")
    case True
    then obtain items where items: "v = JArr items" by (cases v) simp_all
    then obtain x where "x \<in> set items" and "nested n x item"
      using sub by (auto simp: list_ex_iff)
    then have "item \<in> set (findMediaObjects x (depth + 1))"
      using Suc.IH d' by blast
    then show ?thesis using items \<open>x \<in> set items\<close> by (auto simp: F_def)
  next
    case False
    then have "nested n v item" using sub by (cases v) simp_all
    then have mem: "item \<in> set (findMediaObjects v (depth + 1))"
      using Suc.IH d' by blast
    then have "truthy v \<and> typeof_object v" by (rule findMediaObjects_nonempty_object)
    then show ?thesis using mem False by (cases v) (simp_all add: F_def)
  qed
  have "findMediaObjects obj depth =
          (if looks_like_media obj then [obj] else []) @ concat (map F (members obj))"
    using obj d by (subst findMediaObjects.simps) (simp add: F_def)
  moreover have "item \<in> set (concat (map F (members obj)))"
    using v inF by auto
  ultimately show ?case by simp
qed


lemma collector_inv_entries:
  assumes "collector_inv c" and "map_of (collectedReels c) k = Some r"
  shows "post_id r = k" and "has_id r"
proof -
  have kr: "(k, r) \<in> set (collectedReels c)" using assms(2) by (rule map_of_SomeD)
  have "map fst (collectedReels c) = map post_id (map snd (collectedReels c))"
    using assms(1) unfolding collector_inv_def by metis
  then have "\<forall>e \<in> set (collectedReels c). fst e = post_id (snd e)"
    by (simp add: comp_def)
  then show "post_id r = k" using kr by force
  have "r \<in> set (networkReels c)"
  proof -
    have "r \<in> set (map snd (collectedReels c))" using kr by force
    then show ?thesis using assms(1) unfolding collector_inv_def by metis
  qed
  moreover have "list_all has_id (networkReels c)"
    using assms(1) unfolding collector_inv_def by blast
  ultimately show "has_id r" by (simp add: list_all_iff)
qed

lemma getReel_cached:
  assumes "collector_inv c" and "hasReel k c"
  shows "post_id (getReel k c) = k" and "truthy (getReel k c)"
proof -
  have "map_of (collectedReels c) k \<noteq> None"
    using assms(2) by (simp add: hasReel_def map_of_eq_None_iff)
  then obtain r where r: "map_of (collectedReels c) k = Some r" by blast
  have "has_id r" and id: "post_id r = k" using collector_inv_entries [OF assms(1) r] by simp_all
  then have "getReel k c = r" using r by (simp add: getReel_def jor_def has_id_def)
  then show "post_id (getReel k c) = k" and "truthy (getReel k c)"
    using id \<open>has_id r\<close> by (simp_all add: has_id_def)
qed

lemma extractReelFromGraphQL_single:
  assumes "truthy (jor (jprop ''xdt_shortcode_media'' (jprop ''data'' pd))
                       (jprop ''shortcode_media'' (jprop ''data'' pd)))"
  shows "extractReelFromGraphQL lc positive pd =
           extractReelDataFromItem lc
             (jor (jprop ''xdt_shortcode_media'' (jprop ''data'' pd))
                  (jprop ''shortcode_media'' (jprop ''data'' pd)))"
  using assms by (simp add: extractReelFromGraphQL_def Let_def jor_def split: if_splits)

lemma processGraphQLResponse_single:
  assumes "single_item_shape pd item" and "truthy item"
  shows "processGraphQLResponse lc positive pd c = collect (extractReelDataFromItem lc item) c"
proof -
  let ?d = "jprop ''data'' pd"
  have item: "jor (jprop ''xdt_shortcode_media'' ?d) (jprop ''shortcode_media'' ?d) = item"
    and home: "\<not> truthy (jprop ''xdt_api__v1__clips__home__connection_v2'' ?d)"
    using assms(1) by (simp_all add: single_item_shape_def Let_def)
  have some: "truthy (jprop ''xdt_shortcode_media'' ?d) \<or> truthy (jprop ''shortcode_media'' ?d)"
    using item assms(2) by (auto simp: jor_def split: if_splits)
  then have d: "truthy ?d" using truthy_jprop_object by fastforce
  then have pd: "truthy pd" using truthy_jprop_object by fastforce
  have "extractReelFromGraphQL lc positive pd = extractReelDataFromItem lc item"
    using extractReelFromGraphQL_single [of pd lc positive] item assms(2) by simp
  then show ?thesis
    using pd d home some by (simp add: processGraphQLResponse_def Let_def)
qed

lemma processGraphQLResponse_feed:
  assumes "jprop ''edges'' (jprop ''xdt_api__v1__clips__home__connection_v2''
             (jprop ''data'' pd)) = JArr edges"
  shows "processGraphQLResponse lc positive pd c = feed_edges lc edges c"
proof -
  let ?d = "jprop ''data'' pd"
  let ?home = "jprop ''xdt_api__v1__clips__home__connection_v2'' ?d"
  have "truthy (jprop ''edges'' ?home)" using assms by simp
  then have home: "truthy ?home" using truthy_jprop_object by fastforce
  then have d: "truthy ?d" using truthy_jprop_object by fastforce
  then have pd: "truthy pd" using truthy_jprop_object by fastforce
  show ?thesis
    using pd d home assms by (simp add: processGraphQLResponse_def Let_def jor_def)
qed

lemma processGraphQLResponse_search:
  assumes "nested_item_shape n pd item"
  shows "processGraphQLResponse lc positive pd c =
           media_objects lc (findMediaObjects (jprop ''data'' pd) 0) c"
    and "item \<in> set (findMediaObjects (jprop ''data'' pd) 0)"
    and "\<forall>m \<in> set (findMediaObjects (jprop ''data'' pd) 0). m = item \<or> loggable m"
proof -
  let ?d = "jprop ''data'' pd"
  have keys: "\<not> truthy (jprop ''xdt_api__v1__clips__home__connection_v2'' ?d)"
      "\<not> truthy (jprop ''xdt_shortcode_media'' ?d)" "\<not> truthy (jprop ''shortcode_media'' ?d)"
    and n: "n \<le> 5" and nest: "nested n ?d item" and media: "looks_like_media item"
    and logs: "list_all (\<lambda>m. m = item \<or> loggable m) (findMediaObjects ?d 0)"
    using assms by (simp_all add: nested_item_shape_def Let_def)
  show "\<forall>m \<in> set (findMediaObjects ?d 0). m = item \<or> loggable m"
    using logs by (simp add: list_all_iff)
  show found: "item \<in> set (findMediaObjects ?d 0)"
    using findMediaObjects_nested [OF media nest] n by simp
  then have d: "truthy ?d \<and> typeof_object ?d" by (rule findMediaObjects_nonempty_object)
  then have pd: "truthy pd" using truthy_jprop_object by fastforce
  show "processGraphQLResponse lc positive pd c = media_objects lc (findMediaObjects ?d 0) c"
    using pd d keys by (simp add: processGraphQLResponse_def Let_def)
qed

text \<open>
  C3, as the code has it. A parsed response of shape (a), (b) or (d) that carries an
  item whose identifier \<open>X\<close> (its \<open>shortcode\<close>, else its \<open>code\<close>) is a truthy
  primitive value and whose hashtag data can be read without an exception leaves,
  after \<open>processGraphQLResponse\<close>, a record cached under \<open>X\<close> whose \<open>post_id\<close> is
  \<open>X\<close>. In the shapes with several items, none of the other items is one whose log
  line raises: the handler's loop would end there.
\<close>

theorem shape_tolerance:
  assumes shape: "single_item_shape pd item \<or> feed_connection_shape pd item \<or>
                  nested_item_shape n pd item"
    and id: "truthy (item_id item)"
    and prim: "primitive (item_id item)"
    and tags: "extractFromGraphQL toLowerCase item = Inr h"
    and inv: "collector_inv c"
  shows "hasReel (item_id item) (snd (processGraphQLResponse toLowerCase positive pd c)) \<and>
         post_id (getReel (item_id item)
                    (snd (processGraphQLResponse toLowerCase positive pd c))) =
           item_id item"
proof -
  let ?c' = "snd (processGraphQLResponse toLowerCase positive pd c)"
  have tr: "truthy item" using truthy_item_id_object [OF id] by auto
  have has: "hasReel (item_id item) ?c'"
    using shape
  proof (elim disjE)
    assume a: "single_item_shape pd item"
    have "extractReelFromGraphQLItem toLowerCase item = extractReelDataFromItem toLowerCase item"
      using tr by (simp add: extractReelFromGraphQLItem_def)
    then show ?thesis
      using processGraphQLResponse_single [OF a tr, of toLowerCase positive c]
        hasReel_collect_item [OF tags id, of c]
      by simp
  next
    assume b: "feed_connection_shape pd item"
    then obtain edges where edges:
        "jprop ''edges'' (jprop ''xdt_api__v1__clips__home__connection_v2''
           (jprop ''data'' pd)) = JArr edges"
      and ok: "\<forall>e \<in> set edges. \<not> nullish e"
      and logs: "\<forall>e \<in> set edges. jprop ''media'' (jprop ''node'' e) = item \<or>
                  loggable (jprop ''media'' (jprop ''node'' e))"
      and ex: "\<exists>e \<in> set edges. jprop ''media'' (jprop ''node'' e) = item"
      by (auto simp: feed_connection_shape_def list_all_iff list_ex_iff split: jsval.splits)
    from ex obtain e where "e \<in> set edges" and "jprop ''media'' (jprop ''node'' e) = item"
      by blast
    then have "hasReel (item_id item) (snd (feed_edges toLowerCase edges c))"
      using hasReel_feed_edges [OF _ ok logs _ tags id] by blast
    then show ?thesis
      using processGraphQLResponse_feed [OF edges, of toLowerCase positive c] by simp
  next
    assume d: "nested_item_shape n pd item"
    show ?thesis
      using processGraphQLResponse_search(1) [OF d, of toLowerCase positive c]
        hasReel_media_objects [OF processGraphQLResponse_search(2) [OF d]
          processGraphQLResponse_search(3) [OF d] tags id]
      by simp
  qed
  moreover have "collector_inv ?c'"
    using inv by (rule collector_inv_processGraphQLResponse)
  ultimately show ?thesis using getReel_cached(1) by blast
qed

theorem shape_tolerance_witness:
  "single_item_shape single_item_payload sample_clip \<and>
   feed_connection_shape feed_connection_payload sample_clip \<and>
   nested_item_shape 3 nested_item_payload sample_clip \<and>
   item_id sample_clip = JStr ''X'' \<and>
   extractFromGraphQL toLowerCase_ascii sample_clip = Inr ([], []) \<and>
   hasReel (JStr ''X'')
     (snd (processGraphQLResponse toLowerCase_ascii never_positive single_item_payload
        new_collector)) \<and>
   hasReel (JStr ''X'')
     (snd (processGraphQLResponse toLowerCase_ascii never_positive feed_connection_payload
        new_collector)) \<and>
   hasReel (JStr ''X'')
     (snd (processGraphQLResponse toLowerCase_ascii never_positive nested_item_payload
        new_collector))"
proof -
  have a: "single_item_shape single_item_payload sample_clip" by code_simp
  have b: "feed_connection_shape feed_connection_payload sample_clip" by code_simp
  have d: "nested_item_shape 3 nested_item_payload sample_clip" by code_simp
  have x: "item_id sample_clip = JStr ''X''" by code_simp
  then have id: "truthy (item_id sample_clip)" and prim: "primitive (item_id sample_clip)"
    by simp_all
  have tags: "extractFromGraphQL toLowerCase_ascii sample_clip = Inr ([], [])" by code_simp
  note inv = collector_inv_new
  show ?thesis
    using a b d x tags
      shape_tolerance [OF disjI1 id prim tags inv, OF a, of never_positive]
      shape_tolerance [OF disjI2 id prim tags inv, OF disjI1, OF b, of never_positive]
      shape_tolerance [OF disjI2 id prim tags inv, OF disjI2, OF d, of never_positive]
    by simp
qed

text \<open>
  Shape (c) of the claim, a bare top-level \<open>items\<close> array: the response has no
  \<open>data\<close> member, and \<open>processGraphQLResponse\<close> returns at its first test without
  caching anything.
\<close>

theorem bare_items_array_yields_nothing:
  "getAllReels (snd (processGraphQLResponse toLowerCase_ascii never_positive bare_items_payload
      new_collector)) = []"
  by code_simp

lemma no_data_member_returns:
  "\<not> truthy (jprop ''data'' pd) \<Longrightarrow> processGraphQLResponse lc positive pd c = (Returned, c)"
  by (simp add: processGraphQLResponse_def)

text \<open>The search stops below depth five: an item six levels down is not found.\<close>

lemma deep_item_not_found:
  "nested 6 (jprop ''data'' deep_item_payload) sample_clip \<and>
   getAllReels (snd (processGraphQLResponse toLowerCase_ascii never_positive deep_item_payload
      new_collector)) = []"
  by code_simp

text \<open>
  A feed whose first item has a user name without string conversion: its record is
  cached, its log line raises, and the loop never reaches the item \<open>X\<close> behind it.
\<close>

lemma interrupted_feed:
  "processGraphQLResponse toLowerCase_ascii never_positive interrupted_feed_payload
     new_collector =
   (Threw, snd (addReel (extractReelDataFromItem toLowerCase_ascii unloggable_clip)
                  new_collector)) \<and>
   map post_id (getAllReels (snd (processGraphQLResponse toLowerCase_ascii never_positive
      interrupted_feed_payload new_collector))) = [JStr ''A'']"
  by code_simp

lemma clean_body_prefixed:
  "clean_body (anti_hijack_prefix @ body) = dropWhile regex_space body"
  by (simp add: clean_body_def)

lemma clean_body_plain: "\<not> prefix anti_hijack_prefix body \<Longrightarrow> clean_body body = body"
  by (simp add: clean_body_def)

lemma sample_packet_passes:
  "sublist (ascii ''/graphql/query'') (url (sample_packet body)) \<and>
   http_method (sample_packet body) = ascii ''POST'' \<and> data (sample_packet body) = body"
proof -
  have "ascii ''https://www.instagram.com/graphql/query'' =
        ascii ''https://www.instagram.com'' @ ascii ''/graphql/query'' @ []"
    by (simp add: ascii_def)
  then have "sublist (ascii ''/graphql/query'') (ascii ''https://www.instagram.com/graphql/query'')"
    unfolding sublist_def by blast
  then show ?thesis by (simp add: sample_packet_def)
qed

lemma sendDataToNode_sample:
  "sendDataToNode JSON_parse lc positive (sample_packet body) c =
     (Returned, snd (parse_and_process JSON_parse lc positive body c))"
  using sample_packet_passes [of body] by (simp add: sendDataToNode_def caught_def)

lemma sample_text_head: "sample_text = 123 # tl sample_text"
  by (simp add: sample_text_def ascii_def)

lemma prefix_head: "anti_hijack_prefix = 102 # tl anti_hijack_prefix"
  by (simp add: anti_hijack_prefix_def ascii_def)

lemma prefix_nonempty: "anti_hijack_prefix \<noteq> []"
  by (subst prefix_head) simp

lemma sample_text_plain:
  "\<not> prefix anti_hijack_prefix sample_text" "dropWhile regex_space sample_text = sample_text"
  "dropWhile regex_space (anti_hijack_prefix @ sample_text) = anti_hijack_prefix @ sample_text"
  "anti_hijack_prefix @ sample_text \<noteq> sample_text"
proof -
  show "\<not> prefix anti_hijack_prefix sample_text"
    by (subst sample_text_head, subst prefix_head) simp
  show "dropWhile regex_space sample_text = sample_text"
    by (subst (1 2) sample_text_head) (simp add: regex_space_def)
  show "dropWhile regex_space (anti_hijack_prefix @ sample_text) = anti_hijack_prefix @ sample_text"
  proof -
    have "dropWhile regex_space ((102 # tl anti_hijack_prefix) @ sample_text) =
          (102 # tl anti_hijack_prefix) @ sample_text"
      by (simp add: regex_space_def)
    then show ?thesis using prefix_head by simp
  qed
  show "anti_hijack_prefix @ sample_text \<noteq> sample_text"
    by (simp add: prefix_nonempty)
qed

lemma parse_sample:
  "clean_body body = sample_text \<Longrightarrow>
     parse_and_process JSON_parse_sample lc positive body c =
       processGraphQLResponse lc positive sample_value c"
  "clean_body body \<noteq> sample_text \<Longrightarrow>
     parse_and_process JSON_parse_sample lc positive body c = (Threw, c)"
  by (simp_all add: parse_and_process_def JSON_parse_sample_def sample_value_def sample_item_def)

lemma sample_value_cached:
  "hasReel (JStr ''X'')
     (snd (processGraphQLResponse toLowerCase_ascii never_positive sample_value new_collector))"
  "getAllReels
     (snd (processGraphQLResponse toLowerCase_ascii never_positive sample_value new_collector))
     \<noteq> []"
  by code_simp+


lemma html_plain:
  "clean_body (ascii ''<html>'') = ascii ''<html>''" "ascii ''<html>'' \<noteq> sample_text"
proof -
  have h: "ascii ''<html>'' = 60 # tl (ascii ''<html>'')" by (simp add: ascii_def)
  have "\<not> prefix anti_hijack_prefix (ascii ''<html>'')"
    by (subst h, subst prefix_head) simp
  then show "clean_body (ascii ''<html>'') = ascii ''<html>''" by (rule clean_body_plain)
  show "ascii ''<html>'' \<noteq> sample_text"
    by (subst h, subst sample_text_head) simp
qed

lemma space_before_sample:
  assumes "regex_space u" and "u \<noteq> 102" and "u \<noteq> 123"
  shows "clean_body (anti_hijack_prefix @ (u # sample_text)) = sample_text"
    and "clean_body (u # sample_text) \<noteq> sample_text"
proof -
  show "clean_body (anti_hijack_prefix @ (u # sample_text)) = sample_text"
    using assms(1) by (simp add: clean_body_prefixed sample_text_plain(2))
  have "\<not> prefix anti_hijack_prefix (u # sample_text)"
    using assms(2) by (subst prefix_head) simp
  then have "clean_body (u # sample_text) = u # sample_text" by (rule clean_body_plain)
  moreover have "u # sample_text \<noteq> sample_text" by simp
  ultimately show "clean_body (u # sample_text) \<noteq> sample_text" by simp
qed

lemma sample_packet_cached:
  assumes "clean_body body = sample_text"
  shows "snd (sendDataToNode JSON_parse_sample toLowerCase_ascii never_positive
           (sample_packet body) new_collector) =
         snd (processGraphQLResponse toLowerCase_ascii never_positive sample_value new_collector)"
  using assms by (simp add: sendDataToNode_sample parse_sample(1))

lemma sample_packet_dropped:
  assumes "clean_body body \<noteq> sample_text"
  shows "sendDataToNode JSON_parse_sample toLowerCase_ascii never_positive
           (sample_packet body) c = (Returned, c)"
  using assms by (simp add: sendDataToNode_sample parse_sample(2))

text \<open>
  C4, as the code has it. A body behind the prefix is processed exactly as the body
  alone, provided the body does not itself start with the prefix and parses the same
  with and without the white space that the prefix pattern removes after the prefix.
  A body whose cleaned text does not parse leaves the collector as it was, and the
  callback returns normally on every packet.
\<close>

theorem prefix_strip_and_parse_failure:
  "(\<not> prefix anti_hijack_prefix body \<and>
    JSON_parse (dropWhile regex_space body) = JSON_parse body \<longrightarrow>
      sendDataToNode JSON_parse toLowerCase positive (pkt\<lparr>data := anti_hijack_prefix @ body\<rparr>) c =
      sendDataToNode JSON_parse toLowerCase positive (pkt\<lparr>data := body\<rparr>) c) \<and>
   (JSON_parse (clean_body (data pkt)) = None \<longrightarrow>
      sendDataToNode JSON_parse toLowerCase positive pkt c = (Returned, c)) \<and>
   fst (sendDataToNode JSON_parse toLowerCase positive pkt c) = Returned"
proof -
  have "parse_and_process JSON_parse toLowerCase positive (anti_hijack_prefix @ body) c =
        parse_and_process JSON_parse toLowerCase positive body c"
    if "\<not> prefix anti_hijack_prefix body"
      and "JSON_parse (dropWhile regex_space body) = JSON_parse body"
    using that by (simp add: parse_and_process_def clean_body_prefixed clean_body_plain)
  then show ?thesis
    by (simp add: sendDataToNode_def caught_def parse_and_process_def)
qed

theorem prefix_strip_and_parse_failure_witness:
  "\<not> prefix anti_hijack_prefix sample_text \<and>
   JSON_parse_sample (dropWhile regex_space sample_text) = JSON_parse_sample sample_text \<and>
   sendDataToNode JSON_parse_sample toLowerCase_ascii never_positive
       (sample_packet (anti_hijack_prefix @ sample_text)) new_collector =
     sendDataToNode JSON_parse_sample toLowerCase_ascii never_positive
       (sample_packet sample_text) new_collector \<and>
   hasReel (JStr ''X'')
     (snd (sendDataToNode JSON_parse_sample toLowerCase_ascii never_positive
        (sample_packet (anti_hijack_prefix @ sample_text)) new_collector)) \<and>
   JSON_parse_sample (clean_body (data (sample_packet (ascii ''<html>'')))) = None \<and>
   sendDataToNode JSON_parse_sample toLowerCase_ascii never_positive
       (sample_packet (ascii ''<html>'')) new_collector =
     (Returned, new_collector)"
proof -
  note h1 = sample_text_plain(1)
  have h2: "JSON_parse_sample (dropWhile regex_space sample_text) = JSON_parse_sample sample_text"
    by (simp add: sample_text_plain(2))
  have h3: "JSON_parse_sample (clean_body (data (sample_packet (ascii ''<html>'')))) = None"
    using html_plain by (simp add: sample_packet_def JSON_parse_sample_def)
  have "clean_body (anti_hijack_prefix @ sample_text) = sample_text"
    by (simp add: clean_body_prefixed sample_text_plain(2))
  then have h4: "hasReel (JStr ''X'')
     (snd (sendDataToNode JSON_parse_sample toLowerCase_ascii never_positive
        (sample_packet (anti_hijack_prefix @ sample_text)) new_collector))"
    using sample_value_cached(1) by (simp add: sample_packet_cached)
  have p1: "(sample_packet body)\<lparr>data := body'\<rparr> = sample_packet body'" for body body'
    by (simp add: sample_packet_def)
  show ?thesis
    using h1 h2 h3 h4
      prefix_strip_and_parse_failure [of sample_text JSON_parse_sample toLowerCase_ascii
        never_positive "sample_packet sample_text" new_collector]
      prefix_strip_and_parse_failure [of sample_text JSON_parse_sample toLowerCase_ascii
        never_positive "sample_packet (ascii ''<html>'')" new_collector]
    by (simp add: p1)
qed

text \<open>
  The claim quantifies over every body. The body \<open>for (;;);\<close> followed by
  \<open>sample_text\<close> is cleaned to \<open>sample_text\<close> and yields the record \<open>X\<close>; the same
  body behind one more prefix is cleaned once, does not parse, and yields nothing.
\<close>

theorem doubled_prefix_differs:
  "getAllReels (snd (sendDataToNode JSON_parse_sample toLowerCase_ascii never_positive
       (sample_packet (anti_hijack_prefix @ (anti_hijack_prefix @ sample_text)))
       new_collector)) \<noteq>
   getAllReels (snd (sendDataToNode JSON_parse_sample toLowerCase_ascii never_positive
       (sample_packet (anti_hijack_prefix @ sample_text)) new_collector))"
proof -
  have "clean_body (anti_hijack_prefix @ (anti_hijack_prefix @ sample_text)) \<noteq> sample_text"
    by (simp add: clean_body_prefixed sample_text_plain(3) prefix_nonempty)
  then have l: "getAllReels (snd (sendDataToNode JSON_parse_sample toLowerCase_ascii never_positive
       (sample_packet (anti_hijack_prefix @ (anti_hijack_prefix @ sample_text)))
       new_collector)) = []"
    by (simp add: sample_packet_dropped getAllReels_def new_collector_def)
  have "clean_body (anti_hijack_prefix @ sample_text) = sample_text"
    by (simp add: clean_body_prefixed sample_text_plain(2))
  then have r: "getAllReels (snd (sendDataToNode JSON_parse_sample toLowerCase_ascii never_positive
       (sample_packet (anti_hijack_prefix @ sample_text)) new_collector)) \<noteq> []"
    using sample_value_cached(2) by (simp add: sample_packet_cached)
  show ?thesis using l r by simp
qed

text \<open>
  Likewise for a body that starts with white space that is not JSON's, a form feed
  or a no-break space: the prefix pattern removes it, \<open>JSON.parse\<close> does not accept
  it.
\<close>

lemma white_space_differs:
  "getAllReels (snd (sendDataToNode JSON_parse_sample toLowerCase_ascii never_positive
       (sample_packet (anti_hijack_prefix @ (12 # sample_text))) new_collector)) \<noteq>
   getAllReels (snd (sendDataToNode JSON_parse_sample toLowerCase_ascii never_positive
       (sample_packet (12 # sample_text)) new_collector)) \<and>
   getAllReels (snd (sendDataToNode JSON_parse_sample toLowerCase_ascii never_positive
       (sample_packet (anti_hijack_prefix @ (160 # sample_text))) new_collector)) \<noteq>
   getAllReels (snd (sendDataToNode JSON_parse_sample toLowerCase_ascii never_positive
       (sample_packet (160 # sample_text)) new_collector))"
proof -
  have s12: "regex_space 12" "(12::nat) \<noteq> 102" "(12::nat) \<noteq> 123"
    and s160: "regex_space 160" "(160::nat) \<noteq> 102" "(160::nat) \<noteq> 123"
    by (simp_all add: regex_space_def)
  have empty: "getAllReels new_collector = []" by (simp add: getAllReels_def new_collector_def)
  show ?thesis
    using sample_value_cached(2) empty
    by (simp add: sample_packet_cached [OF space_before_sample(1) [OF s12]]
          sample_packet_dropped [OF space_before_sample(2) [OF s12]]
          sample_packet_cached [OF space_before_sample(1) [OF s160]]
          sample_packet_dropped [OF space_before_sample(2) [OF s160]])
qed
section \<open>Properties of the navigator\<close>

declare bit_length.simps [simp del]

lemma bit_length_pos: "0 < n \<Longrightarrow> 0 < bit_length n"
  by (subst bit_length.simps) simp

lemma bit_length_bound: "0 < n \<Longrightarrow> 2 ^ (bit_length n - 1) \<le> n"
proof (induction n rule: bit_length.induct)
  case (1 n)
  show ?case
  proof (cases "n div 2 = 0")
    case True
    then have "n = 1" using "1.prems" by (simp add: div_eq_0_iff) 
    then show ?thesis by (subst bit_length.simps) (simp add: bit_length.simps [of 0])
  next
    case False
    then have pos: "0 < n div 2" by simp
    have IH: "2 ^ (bit_length (n div 2) - 1) \<le> n div 2"
      using "1.IH" "1.prems" pos by simp
    have bl: "bit_length n = Suc (bit_length (n div 2))"
      using "1.prems" by (subst bit_length.simps) simp
    obtain b where b: "bit_length (n div 2) = Suc b"
      using bit_length_pos [OF pos] by (cases "bit_length (n div 2)") simp_all
    have "(2::nat) ^ (bit_length n - 1) = 2 * 2 ^ b" by (simp add: bl b)
    also have "\<dots> \<le> 2 * (n div 2)" using IH by (simp add: b)
    also have "\<dots> \<le> n" by simp
    finally show ?thesis .
  qed
qed

lemma round53_bounds:
  "2 ^ 53 * round53 n \<le> (2 ^ 53 + 1) * n \<and> (2 ^ 53 - 1) * n \<le> 2 ^ 53 * round53 n"
proof (cases "bit_length n \<le> 53")
  case True
  then have "round53 n = n" by (simp add: round53_def Let_def)
  then show ?thesis by simp
next
  case False
  define e where "e = bit_length n - 53"
  define E :: nat where "E = 2 ^ e"
  define Q where "Q = (n div E) * E"
  define r where "r = n mod E"
  have n: "n = Q + r" by (simp add: Q_def r_def)
  have Epos: "0 < E" by (simp add: E_def)
  have r: "r < E" unfolding r_def using Epos by simp
  have npos: "0 < n" using False by (cases "n = 0") (simp_all add: bit_length.simps [of 0])
  have "bit_length n - 1 = e + 52" using False by (simp add: e_def)
  then have "(2::nat) ^ (e + 52) \<le> n" using bit_length_bound [OF npos] by simp
  then have big: "E * 2 ^ 52 \<le> n" by (simp add: E_def power_add)
  have R: "round53 n = Q + E \<or> round53 n = Q" and
    up: "round53 n = Q + E \<Longrightarrow> E \<le> 2 * r" and down: "round53 n = Q \<Longrightarrow> 2 * r \<le> E"
  proof -
    have def: "round53 n =
        (if 2 * r > E \<or> (2 * r = E \<and> odd (n div E)) then (n div E + 1) * E else Q)"
      by (simp add: round53_def Let_def e_def E_def Q_def r_def)
    have plus: "(n div E + 1) * E = Q + E" by (simp add: Q_def)
    show "round53 n = Q + E \<or> round53 n = Q" using def plus by auto
    show "round53 n = Q + E \<Longrightarrow> E \<le> 2 * r" using def plus Epos by (auto split: if_splits)
    show "round53 n = Q \<Longrightarrow> 2 * r \<le> E" using def plus Epos by (auto split: if_splits)
  qed
  from R show ?thesis
  proof
    assume a: "round53 n = Q + E"
    have "E \<le> 2 * r" using up [OF a] .
    then show ?thesis using a n r big by simp
  next
    assume a: "round53 n = Q"
    have "2 * r \<le> E" using down [OF a] .
    then show ?thesis using a n r big by simp
  qed
qed

lemma past_70_percent_above:
  assumes "M \<le> 2 ^ 49" and "10 * t > 7 * M"
  shows "past_70_percent t M"
proof -
  have "2 ^ 53 * round53 (M * seven_tenths) \<le> (2 ^ 53 + 1) * (M * seven_tenths)"
    using round53_bounds by blast
  then show ?thesis
    using assms unfolding past_70_percent_def seven_tenths_def by simp
qed

lemma past_70_percent_below:
  assumes "M \<le> 2 ^ 49" and "past_70_percent t M"
  shows "10 * t \<ge> 7 * M"
proof -
  have "(2 ^ 53 - 1) * (M * seven_tenths) \<le> 2 ^ 53 * round53 (M * seven_tenths)"
    using round53_bounds by blast
  then show ?thesis
    using assms unfolding past_70_percent_def seven_tenths_def by simp
qed


lemma past_70_percent_default: "past_70_percent t default_maxWaitTime = (5600 < t)"
proof -
  have bl: "bit_length (8000 * seven_tenths) = 66"
    by (simp add: seven_tenths_def bit_length.simps)
  have "round53 (8000 * seven_tenths) = 5600 * 2 ^ 53"
    unfolding round53_def bl Let_def by (simp add: seven_tenths_def)
  then show ?thesis by (simp add: past_70_percent_def default_maxWaitTime_def)
qed

lemma past_70_percent_6000: "past_70_percent t 6000 = (4200 < t)"
proof -
  have bl: "bit_length (6000 * seven_tenths) = 66"
    by (simp add: seven_tenths_def bit_length.simps)
  have "round53 (6000 * seven_tenths) = 4200 * 2 ^ 53"
    unfolding round53_def bl Let_def by (simp add: seven_tenths_def)
  then show ?thesis by (simp add: past_70_percent_def)
qed

text \<open>
  The product is a double: for the bound 21000 it is the double just below 14700,
  and a round that ends at 14700 ms, exactly 70 percent of the bound, is past it.
\<close>

lemma past_70_percent_rounding: "past_70_percent 14700 21000 \<and> 10 * 14700 = (7 * 21000 :: nat)"
  by (simp add: past_70_percent_def round53_def Let_def seven_tenths_def bit_length.simps)

declare verify_loop.simps [simp del]
declare attempt_loop.simps [simp del]

lemma video_accepts_loaded:
  "video_accepts (fst (query p video_selector w)) t M =
     (video_loaded p w \<and> t > 2000 \<and> past_70_percent t M)"
  by (auto simp: video_accepts_def video_loaded_def split: res.splits option.splits)

text \<open>
  The loop from any value \<open>t\<close> of \<open>waitedTime\<close>: the rounds left are those that
  start before the bound, and round \<open>k\<close> ends at time \<open>t + 300 * (k + 1)\<close>.
\<close>

lemma verify_loop_rounds:
  "fst (verify_loop p cur M t w) =
     (\<exists>k. t + 300 * k < M \<and>
          (id_changed p cur (poll_state p k w) \<or>
           video_loaded p (poll_state p k w) \<and>
             t + 300 * (k + 1) > 2000 \<and> past_70_percent (t + 300 * (k + 1)) M))"
  (is "?lhs p cur M t w = (\<exists>k. ?R t k w)")
proof (induction p cur M t w rule: verify_loop.induct)
  case (1 p cur M t w)
  let ?w1 = "randomDelay p 300 400 w"
  let ?q = "query p video_selector ?w1"
  show ?case
  proof (cases "t < M")
    case False
    then have "\<not> (\<exists>k. t + 300 * k < M)" by simp
    then show ?thesis using False by (subst verify_loop.simps) auto
  next
    case True
    have ch: "id_changed p cur ?w1 =
        (getCurrentReelId p ?w1 \<noteq> None \<and> getCurrentReelId p ?w1 \<noteq> Some cur)"
      by (auto simp: id_changed_def split: option.splits)
    show ?thesis
    proof (cases "id_changed p cur ?w1 \<or> video_accepts (fst ?q) (t + 300) M")
      case accept: True
      then have "fst (verify_loop p cur M t w) = True"
        using True ch by (subst verify_loop.simps) (auto simp: Let_def)
      moreover have "t + 300 * 0 < M \<and>
          (id_changed p cur (poll_state p 0 w) \<or>
           video_loaded p (poll_state p 0 w) \<and>
             t + 300 * (0 + 1) > 2000 \<and> past_70_percent (t + 300 * (0 + 1)) M)"
        using accept True by (auto simp: video_accepts_loaded)
      ultimately show ?thesis by blast
    next
      case reject: False
      then have nch: "\<not> (getCurrentReelId p ?w1 \<noteq> None \<and> getCurrentReelId p ?w1 \<noteq> Some cur)"
        and nvid: "\<not> video_accepts (fst ?q) (t + 300) M"
        using ch by simp_all
      have step: "fst (verify_loop p cur M t w) = fst (verify_loop p cur M (t + 300) (snd ?q))"
        using True nch nvid by (subst verify_loop.simps) (auto simp: Let_def)
      have IH: "fst (verify_loop p cur M (t + 300) (snd ?q)) =
          (\<exists>k. (t + 300) + 300 * k < M \<and>
            (id_changed p cur (poll_state p k (snd ?q)) \<or>
             video_loaded p (poll_state p k (snd ?q)) \<and>
               (t + 300) + 300 * (k + 1) > 2000 \<and>
               past_70_percent ((t + 300) + 300 * (k + 1)) M))"
        using "1.IH" [OF True refl refl refl nch refl nvid] .
      have zero: "\<not> (id_changed p cur (poll_state p 0 w) \<or>
           video_loaded p (poll_state p 0 w) \<and>
             t + 300 * (0 + 1) > 2000 \<and> past_70_percent (t + 300 * (0 + 1)) M)"
        using reject by (auto simp: video_accepts_loaded)
      have shift: "(t + 300) + 300 * k = t + 300 * Suc k"
                  "(t + 300) + 300 * (k + 1) = t + 300 * (Suc k + 1)" for k
        by simp_all
      have "(\<exists>k. t + 300 * k < M \<and>
          (id_changed p cur (poll_state p k w) \<or>
           video_loaded p (poll_state p k w) \<and>
             t + 300 * (k + 1) > 2000 \<and> past_70_percent (t + 300 * (k + 1)) M)) =
        (\<exists>k. t + 300 * Suc k < M \<and>
          (id_changed p cur (poll_state p (Suc k) w) \<or>
           video_loaded p (poll_state p (Suc k) w) \<and>
             t + 300 * (Suc k + 1) > 2000 \<and> past_70_percent (t + 300 * (Suc k + 1)) M))"
        (is "(\<exists>k. ?A k) = (\<exists>k. ?A (Suc k))")
      proof
        assume "\<exists>k. ?A k"
        then obtain k where k: "?A k" by blast
        then have "k \<noteq> 0" using zero by (cases k) auto
        then obtain k' where "k = Suc k'" by (cases k) auto
        then show "\<exists>k. ?A (Suc k)" using k by blast
      next
        assume "\<exists>k. ?A (Suc k)"
        then show "\<exists>k. ?A k" by blast
      qed
      then show ?thesis
        unfolding step IH shift by simp
    qed
  qed
qed

lemma sim_page_fields:
  "page_url (sim_page a r ps) w = Ok (sim_url w)"
  "focus (sim_page a r ps) sel w = (Ok (), w)"
  "keyboard_press (sim_page a r ps) key w = (Ok (), sim_act a key w)"
  "query (sim_page a r ps) sel w =
     (if r then Thrown else Ok (if sel \<in> set ps then Some 0 else None), w)"
  "scrollIntoView (sim_page a r ps) el w = (Ok (), w)"
  "click (sim_page a r ps) el w = (Ok (), sim_act a ''click'' w)"
  "boundingBox (sim_page a r ps) el w =
     (Ok (Some \<lparr>box_x = 0, box_y = 0, box_width = 1, box_height = 1\<rparr>), w)"
  "mouse_move (sim_page a r ps) x y steps w = (Ok (), w)"
  "mouse_down (sim_page a r ps) w = (Ok (), w)"
  "mouse_up (sim_page a r ps) w = (Ok (), sim_act a ''swipe'' w)"
  "randomDelay (sim_page a r ps) lo hi w = w"
  by (simp_all add: sim_page_def)

lemma sim_poll_state: "poll_state (sim_page a r ps) k w = w"
  by (induction k arbitrary: w) (simp_all add: sim_page_fields)

text \<open>
  C6. For a bound of at most \<open>2^49\<close> ms, \<open>verifyNavigation\<close> checks after each
  nominal 300 ms, in the rounds that start before the bound, and returns true exactly
  when some round accepts: the identifier read from the URL is then a different,
  non-null one, or a loaded video element is present, more than 2000 ms have
  elapsed and the elapsed time is past the product of the bound and \<open>0.7\<close>. Every
  time of more than 70 percent of the bound is past that product, and no time of
  less than 70 percent is. With the default bound of 8000 ms there are 27 rounds,
  and the video element counts from the 19th on; with the bound of 6000 ms of the
  PageDown strategy there are 20 rounds, and it counts from the 15th on. If no
  round sees a changed identifier and none of the late rounds sees a loaded video,
  the result is false.
\<close>

theorem verifyNavigation_bound:
  assumes "maxWaitTime \<le> 2 ^ 49"
  shows "fst (verifyNavigation p cur maxWaitTime w) =
           (\<exists>k. 300 * k < maxWaitTime \<and> round_accepts p cur maxWaitTime k w) \<and>
         (10 * t > 7 * maxWaitTime \<longrightarrow> past_70_percent t maxWaitTime) \<and>
         (past_70_percent t maxWaitTime \<longrightarrow> 10 * t \<ge> 7 * maxWaitTime) \<and>
         fst (verifyNavigation p cur default_maxWaitTime w) =
           (\<exists>k<27. id_changed p cur (poll_state p k w) \<or>
                     18 \<le> k \<and> video_loaded p (poll_state p k w)) \<and>
         fst (verifyNavigation p cur 6000 w) =
           (\<exists>k<20. id_changed p cur (poll_state p k w) \<or>
                     14 \<le> k \<and> video_loaded p (poll_state p k w))"
proof -
  have general: "fst (verifyNavigation p cur M w) =
      (\<exists>k. 300 * k < M \<and> round_accepts p cur M k w)" for M
    using verify_loop_rounds [of p cur M 0 w]
    by (simp add: verifyNavigation_def round_accepts_def)
  have d: "(300 * k < default_maxWaitTime \<and> round_accepts p cur default_maxWaitTime k w) =
      (k < 27 \<and> (id_changed p cur (poll_state p k w) \<or>
                  18 \<le> k \<and> video_loaded p (poll_state p k w)))" for k
    by (auto simp: round_accepts_def past_70_percent_default) (simp_all add: default_maxWaitTime_def)
  have s: "(300 * k < 6000 \<and> round_accepts p cur 6000 k w) =
      (k < 20 \<and> (id_changed p cur (poll_state p k w) \<or>
                  14 \<le> k \<and> video_loaded p (poll_state p k w)))" for k
    by (auto simp: round_accepts_def past_70_percent_6000)
  have "fst (verifyNavigation p cur default_maxWaitTime w) =
           (\<exists>k<27. id_changed p cur (poll_state p k w) \<or>
                     18 \<le> k \<and> video_loaded p (poll_state p k w))"
    unfolding general d by simp
  moreover have "fst (verifyNavigation p cur 6000 w) =
           (\<exists>k<20. id_changed p cur (poll_state p k w) \<or>
                     14 \<le> k \<and> video_loaded p (poll_state p k w))"
    unfolding general s by simp
  ultimately show ?thesis
    using general [of maxWaitTime] past_70_percent_above [OF assms, of t]
      past_70_percent_below [OF assms, of t]
    by blast
qed

lemma attempt_loop_step:
  "attempt_loop p body lo hi n a w =
     (if a \<le> n then
        (if fst (body w) = Ok True then (True, snd (body w))
         else attempt_loop p body lo hi n (a + 1)
                (if a < n then randomDelay p lo hi (snd (body w)) else snd (body w)))
      else (False, w))"
  by (subst attempt_loop.simps)
     (cases "body w"; cases "fst (body w)"; auto split: bool.splits)

text \<open>
  The loop from attempt number \<open>j + 1\<close> on: it returns true exactly when the body
  of one of the attempts left returns true, and then with the state that body left.
\<close>

lemma attempt_loop_from:
  "fst (attempt_loop p body lo hi n (Suc j) (attempt_state p body lo hi n j w)) =
     (\<exists>k. j \<le> k \<and> k < n \<and> fst (body (attempt_state p body lo hi n k w)) = Ok True)"
proof (induction "n - j" arbitrary: j)
  case 0
  then have "\<not> Suc j \<le> n" by simp
  then show ?case using 0 by (subst attempt_loop_step) auto
next
  case (Suc d)
  then have le: "Suc j \<le> n" and d: "d = n - Suc j" by simp_all
  let ?w = "attempt_state p body lo hi n j w"
  show ?case
  proof (cases "fst (body ?w) = Ok True")
    case True
    then have "fst (attempt_loop p body lo hi n (Suc j) ?w) = True"
      using le by (subst attempt_loop_step) simp
    then show ?thesis using True le by auto
  next
    case False
    have next_state: "(if Suc j < n then randomDelay p lo hi (snd (body ?w)) else snd (body ?w)) =
        attempt_state p body lo hi n (Suc j) w"
      by (simp add: Let_def)
    have "fst (attempt_loop p body lo hi n (Suc j) ?w) =
          fst (attempt_loop p body lo hi n (Suc (Suc j)) (attempt_state p body lo hi n (Suc j) w))"
      using le False by (subst attempt_loop_step) (simp add: Let_def)
    also have "\<dots> = (\<exists>k. Suc j \<le> k \<and> k < n \<and>
        fst (body (attempt_state p body lo hi n k w)) = Ok True)"
      using Suc.hyps(1) [OF d] .
    also have "\<dots> = (\<exists>k. j \<le> k \<and> k < n \<and>
        fst (body (attempt_state p body lo hi n k w)) = Ok True)"
      using False by (metis Suc_leD Suc_leI le_neq_implies_less)
    finally show ?thesis .
  qed
qed

lemma attempt_loop_iff:
  "fst (attempt_loop p body lo hi n 1 w) =
     (\<exists>k<n. fst (body (attempt_state p body lo hi n k w)) = Ok True)"
  using attempt_loop_from [of p body lo hi n 0 w] by simp

lemma attempt_loop_success:
  "fst (attempt_loop p body lo hi n a w) \<Longrightarrow>
     \<exists>v. body v = (Ok True, snd (attempt_loop p body lo hi n a w))"
proof (induction "Suc n - a" arbitrary: a w)
  case 0
  then have "\<not> a \<le> n" by simp
  then show ?case using "0.prems" by (subst (asm) attempt_loop_step) simp
next
  case (Suc d)
  then have le: "a \<le> n" and d: "d = Suc n - (a + 1)" by simp_all
  show ?case
  proof (cases "fst (body w) = Ok True")
    case True
    then have "attempt_loop p body lo hi n a w = (True, snd (body w))"
      using le by (subst attempt_loop_step) simp
    then show ?thesis using True by (metis prod.collapse snd_conv)
  next
    case False
    let ?w' = "if a < n then randomDelay p lo hi (snd (body w)) else snd (body w)"
    have eq: "attempt_loop p body lo hi n a w = attempt_loop p body lo hi n (a + 1) ?w'"
      using le False by (subst attempt_loop_step) simp
    then have "fst (attempt_loop p body lo hi n (a + 1) ?w')" using Suc.prems by simp
    then show ?thesis using Suc.hyps(1) [OF d] eq by simp
  qed
qed

text \<open>The bodies of the attempts, against what they have to achieve.\<close>

lemma key_attempt_iff:
  "fst (key_attempt p key cur m w) = Ok (key_verified p key cur m w) \<or>
   fst (key_attempt p key cur m w) = Thrown \<and> \<not> key_verified p key cur m w"
  by (auto simp: key_attempt_def key_verified_def and_then_def delay_def verified_def
        split: prod.splits res.splits)

lemma key_attempt_verified:
  "fst (key_attempt p key cur m w) = Ok True \<Longrightarrow>
     \<exists>v. verifyNavigation p cur m v = (True, snd (key_attempt p key cur m w))"
  by (auto simp: key_attempt_def and_then_def delay_def verified_def
        split: prod.splits res.splits)

lemma key_attempt_true:
  "(fst (key_attempt p key cur m w) = Ok True) = key_verified p key cur m w"
  using key_attempt_iff [of p key cur m w] by auto

lemma button_attempt_true:
  "(fst (button_attempt p cur w) = Ok True) = button_verified p cur w"
  by (auto simp: button_attempt_def button_verified_def click_verified_def and_then_def
        delay_def verified_def split: prod.splits option.splits res.splits)

lemma button_attempt_verified:
  "fst (button_attempt p cur w) = Ok True \<Longrightarrow>
     \<exists>v. verifyNavigation p cur default_maxWaitTime v = (True, snd (button_attempt p cur w))"
  by (auto simp: button_attempt_def and_then_def delay_def verified_def
        split: prod.splits option.splits res.splits)

lemma swipe_attempt_true:
  "(fst (swipe_attempt p cur w) = Ok True) = swipe_verified p cur w"
  by (auto simp: swipe_attempt_def swipe_verified_def gesture_verified_def and_then_def
        delay_def verified_def Let_def split: prod.splits option.splits res.splits)

lemma swipe_attempt_verified:
  "fst (swipe_attempt p cur w) = Ok True \<Longrightarrow>
     \<exists>v. verifyNavigation p cur default_maxWaitTime v = (True, snd (swipe_attempt p cur w))"
  by (auto simp: swipe_attempt_def and_then_def delay_def verified_def Let_def
        split: prod.splits option.splits res.splits)

lemma or_false_true: "fst (or_false r) = (fst r = Ok True)"
  by (cases r; cases "fst r") (auto simp: or_false_def)

lemma or_false_state: "snd (or_false r) = snd r"
  by (cases r; cases "fst r") (auto simp: or_false_def)

text \<open>The selector loop.\<close>

lemma resolves_at_0:
  "resolves_at p (s # ss) 0 w =
     (case fst (query p s w) of Ok (Some b) \<Rightarrow> Some b | _ \<Rightarrow> None)"
  by (simp add: resolves_at_def selector_state_def)

lemma resolves_at_Suc:
  "resolves_at p (s # ss) (Suc i) w = resolves_at p ss i (snd (query p s w))"
  by (simp add: resolves_at_def selector_state_def)

lemma find_button_step:
  "find_button p (s # ss) w =
     (case resolves_at p (s # ss) 0 w of
        Some b \<Rightarrow> (Some b, snd (query p s w))
      | None \<Rightarrow> find_button p ss (snd (query p s w)))"
  by (cases "query p s w"; cases "fst (query p s w)")
     (auto simp: resolves_at_0 split: option.splits)

lemma find_button_none:
  "(fst (find_button p sels w) = None) = (\<forall>i<length sels. resolves_at p sels i w = None)"
proof (induction sels arbitrary: w)
  case Nil
  show ?case by simp
next
  case (Cons s ss)
  show ?case
  proof (cases "resolves_at p (s # ss) 0 w")
    case None
    have "(\<forall>i<length (s # ss). resolves_at p (s # ss) i w = None) =
          (\<forall>i<length ss. resolves_at p ss i (snd (query p s w)) = None)"
      using None by (auto simp: All_less_Suc2 resolves_at_Suc)
    then show ?thesis
      using None Cons.IH [of "snd (query p s w)"]
      by (simp add: find_button_step del: find_button.simps)
  next
    case (Some b)
    then show ?thesis by (auto simp: find_button_step simp del: find_button.simps)
  qed
qed

lemma find_button_first:
  "fst (find_button p sels w) = Some b \<Longrightarrow>
     \<exists>i<length sels. resolves_at p sels i w = Some b \<and>
        (\<forall>j<i. resolves_at p sels j w = None)"
proof (induction sels arbitrary: w)
  case Nil
  then show ?case by simp
next
  case (Cons s ss)
  show ?case
  proof (cases "resolves_at p (s # ss) 0 w")
    case (Some b')
    then have "b' = b" using Cons.prems by (simp add: find_button_step del: find_button.simps)
    then have "resolves_at p (s # ss) 0 w = Some b \<and>
        (\<forall>j<0. resolves_at p (s # ss) j w = None)" using Some by simp
    then show ?thesis by (metis length_greater_0_conv list.distinct(1))
  next
    case None
    then have "fst (find_button p ss (snd (query p s w))) = Some b"
      using Cons.prems by (simp add: find_button_step del: find_button.simps)
    then obtain i where i: "i < length ss" "resolves_at p ss i (snd (query p s w)) = Some b"
        "\<forall>j<i. resolves_at p ss j (snd (query p s w)) = None"
      using Cons.IH by blast
    have "\<forall>j<Suc i. resolves_at p (s # ss) j w = None"
      using None i(3) by (auto simp: All_less_Suc2 resolves_at_Suc)
    then have "Suc i < length (s # ss) \<and> resolves_at p (s # ss) (Suc i) w = Some b \<and>
        (\<forall>j<Suc i. resolves_at p (s # ss) j w = None)"
      using i by (simp add: resolves_at_Suc)
    then show ?thesis by blast
  qed
qed

text \<open>The five strategies.\<close>

lemma navigateWithArrowDown_iff:
  "fst (navigateWithArrowDown p cur n v) =
     (\<exists>k<n. key_verified p ''ArrowDown'' cur default_maxWaitTime
        (attempt_state p (key_attempt p ''ArrowDown'' cur default_maxWaitTime)
           1000 2000 n k v))"
  unfolding navigateWithArrowDown_def attempt_loop_iff key_attempt_true ..

lemma navigateWithArrowRight_iff:
  "fst (navigateWithArrowRight p cur n v) =
     (\<exists>k<n. key_verified p ''ArrowRight'' cur default_maxWaitTime
        (attempt_state p (key_attempt p ''ArrowRight'' cur default_maxWaitTime)
           1000 2000 n k v))"
  unfolding navigateWithArrowRight_def attempt_loop_iff key_attempt_true ..

lemma navigateWithButtonClick_iff:
  "fst (navigateWithButtonClick p cur n v) =
     (\<exists>k<n. button_verified p cur
        (attempt_state p (button_attempt p cur) 1500 2500 n k v))"
  unfolding navigateWithButtonClick_def attempt_loop_iff button_attempt_true ..

lemma navigateWithSwipe_iff: "fst (navigateWithSwipe p cur v) = swipe_verified p cur v"
  by (simp add: navigateWithSwipe_def or_false_true swipe_attempt_true)

lemma navigateWithPageDown_iff:
  "fst (navigateWithPageDown p cur v) = key_verified p ''PageDown'' cur 6000 v"
  by (simp add: navigateWithPageDown_def or_false_true key_attempt_true)

lemma strategy_verified:
  assumes "i < 5" and "fst ((strategies p cur n ! i) v) = Ok True"
  shows "\<exists>v' m. (m = default_maxWaitTime \<or> m = 6000) \<and>
           verifyNavigation p cur m v' = (True, snd ((strategies p cur n ! i) v))"
proof -
  have ret: "fst (returning f v) = Ok True \<Longrightarrow> fst (f v)" for f :: "'a \<Rightarrow> bool \<times> 'a"
    by (cases "f v") (simp add: returning_def)
  have st: "snd (returning f v) = snd (f v)" for f :: "'a \<Rightarrow> bool \<times> 'a"
    by (cases "f v") (simp add: returning_def)
  consider "i = 0" | "i = 1" | "i = 2" | "i = 3" | "i = 4" using assms(1) by linarith
  then show ?thesis
  proof cases
    case 1
    then have "fst (navigateWithArrowDown p cur n v)"
      using assms(2) ret by (simp add: strategies_def)
    then obtain u where
      "key_attempt p ''ArrowDown'' cur default_maxWaitTime u =
         (Ok True, snd (navigateWithArrowDown p cur n v))"
      unfolding navigateWithArrowDown_def
      using attempt_loop_success
        [of p "key_attempt p ''ArrowDown'' cur default_maxWaitTime" 1000 2000 n 1 v]
      by auto
    then show ?thesis
      using key_attempt_verified [of p "''ArrowDown''" cur default_maxWaitTime u] 1
      by (auto simp: strategies_def st)
  next
    case 2
    then have "fst (navigateWithArrowRight p cur n v)"
      using assms(2) ret by (simp add: strategies_def)
    then obtain u where
      "key_attempt p ''ArrowRight'' cur default_maxWaitTime u =
         (Ok True, snd (navigateWithArrowRight p cur n v))"
      unfolding navigateWithArrowRight_def
      using attempt_loop_success
        [of p "key_attempt p ''ArrowRight'' cur default_maxWaitTime" 1000 2000 n 1 v]
      by auto
    then show ?thesis
      using key_attempt_verified [of p "''ArrowRight''" cur default_maxWaitTime u] 2
      by (auto simp: strategies_def st)
  next
    case 3
    then have "fst (navigateWithButtonClick p cur n v)"
      using assms(2) ret by (simp add: strategies_def)
    then obtain u where
      "button_attempt p cur u = (Ok True, snd (navigateWithButtonClick p cur n v))"
      unfolding navigateWithButtonClick_def
      using attempt_loop_success [of p "button_attempt p cur" 1500 2500 n 1 v]
      by auto
    then show ?thesis
      using button_attempt_verified [of p cur u] 3
      by (auto simp: strategies_def st)
  next
    case 4
    then have "fst (navigateWithSwipe p cur v)"
      using assms(2) ret by (simp add: strategies_def)
    then have "fst (swipe_attempt p cur v) = Ok True"
      by (simp add: navigateWithSwipe_def or_false_true)
    then show ?thesis
      using swipe_attempt_verified [of p cur v] 4
      by (auto simp: strategies_def st navigateWithSwipe_def or_false_state)
  next
    case 5
    then have "fst (navigateWithPageDown p cur v)"
      using assms(2) ret by (simp add: strategies_def)
    then have "fst (key_attempt p ''PageDown'' cur 6000 v) = Ok True"
      by (simp add: navigateWithPageDown_def or_false_true)
    then show ?thesis
      using key_attempt_verified [of p "''PageDown''" cur 6000 v] 5
      by (auto simp: strategies_def st navigateWithPageDown_def or_false_state)
  qed
qed

lemma state_before_0: "state_before ss 0 w = w"
  by (simp add: state_before_def)

lemma state_before_Suc: "state_before (s # ss) (Suc i) w = state_before ss i (snd (s w))"
  by (simp add: state_before_def)

lemma succeeds_at_0: "succeeds_at (s # ss) 0 w = (fst (s w) = Ok True)"
  by (simp add: succeeds_at_def state_before_0)

lemma succeeds_at_Suc: "succeeds_at (s # ss) (Suc i) w = succeeds_at ss i (snd (s w))"
  by (simp add: succeeds_at_def state_before_Suc)

lemma try_strategies_step:
  "try_strategies (s # ss) w =
     (if fst (s w) = Ok True then (True, snd (s w)) else try_strategies ss (snd (s w)))"
  by (cases "s w") (auto split: res.splits bool.splits)

declare try_strategies.simps(2) [simp del]

lemma try_strategies_fails:
  "fst (try_strategies ss w) = False \<longleftrightarrow> (\<forall>i<length ss. \<not> succeeds_at ss i w)"
proof (induction ss arbitrary: w)
  case Nil
  show ?case by simp
next
  case (Cons s ss)
  show ?case
  proof (cases "fst (s w) = Ok True")
    case True
    then have "succeeds_at (s # ss) 0 w" by (simp add: succeeds_at_0)
    then show ?thesis using True by (auto simp: try_strategies_step)
  next
    case False
    have "(\<forall>i<length (s # ss). \<not> succeeds_at (s # ss) i w) =
          (\<forall>i<length ss. \<not> succeeds_at ss i (snd (s w)))"
      using False by (auto simp: All_less_Suc2 succeeds_at_0 succeeds_at_Suc)
    then show ?thesis
      using False Cons.IH [of "snd (s w)"] by (simp add: try_strategies_step)
  qed
qed

lemma try_strategies_first_success:
  "fst (try_strategies ss w) \<Longrightarrow>
     \<exists>i<length ss. succeeds_at ss i w \<and> (\<forall>j<i. \<not> succeeds_at ss j w) \<and>
        snd (try_strategies ss w) = snd ((ss ! i) (state_before ss i w))"
proof (induction ss arbitrary: w)
  case Nil
  then show ?case by simp
next
  case (Cons s ss)
  show ?case
  proof (cases "fst (s w) = Ok True")
    case True
    then have "succeeds_at (s # ss) 0 w \<and> (\<forall>j<0. \<not> succeeds_at (s # ss) j w) \<and>
        snd (try_strategies (s # ss) w) = snd (((s # ss) ! 0) (state_before (s # ss) 0 w))"
      by (simp add: succeeds_at_0 state_before_0 try_strategies_step)
    then show ?thesis by blast
  next
    case False
    then have rest: "try_strategies (s # ss) w = try_strategies ss (snd (s w))"
      by (simp add: try_strategies_step)
    then have "fst (try_strategies ss (snd (s w)))" using Cons.prems by simp
    then obtain i where i: "i < length ss" "succeeds_at ss i (snd (s w))"
        "\<forall>j<i. \<not> succeeds_at ss j (snd (s w))"
        "snd (try_strategies ss (snd (s w))) = snd ((ss ! i) (state_before ss i (snd (s w))))"
      using Cons.IH by blast
    have "\<forall>j<Suc i. \<not> succeeds_at (s # ss) j w"
      using False i(3) by (auto simp: All_less_Suc2 succeeds_at_0 succeeds_at_Suc)
    then have "Suc i < length (s # ss) \<and> succeeds_at (s # ss) (Suc i) w \<and>
        (\<forall>j<Suc i. \<not> succeeds_at (s # ss) j w) \<and>
        snd (try_strategies (s # ss) w) =
          snd (((s # ss) ! Suc i) (state_before (s # ss) (Suc i) w))"
      using i rest by (simp add: succeeds_at_Suc state_before_Suc)
    then show ?thesis by blast
  qed
qed

lemma try_strategies_all_fail_state:
  "\<not> fst (try_strategies ss w) \<Longrightarrow> snd (try_strategies ss w) = state_before ss (length ss) w"
proof (induction ss arbitrary: w)
  case Nil
  show ?case by (simp add: state_before_0)
next
  case (Cons s ss)
  then show ?case
    by (cases "fst (s w) = Ok True")
       (simp_all add: try_strategies_step state_before_Suc)
qed

lemma length_strategies: "length (strategies p cur n) = 5"
  by (simp add: strategies_def)


text \<open>
  C5. When the current reel identifier \<open>cur\<close> can be read, \<open>navigateToNextReel\<close>
  runs the five strategies in the order ArrowDown key, ArrowRight key, Next-button
  click, swipe, PageDown key, each from the state the one before left. It returns
  true at the first strategy that returns true, with the state that strategy left,
  which is the state at the end of a verification that returned true, and runs
  none after it; it returns false exactly when none of the five returned true.

  A strategy never raises. The two arrow keys and the button click make up to
  \<open>maxRetries\<close> attempts and return true exactly when in one of them the operations
  go through and the verification after them returns true; an attempt in which an
  operation raises counts like one whose verification fails, and the next attempt
  starts from the state at the raise. The swipe and the PageDown key make one
  attempt. The button is the element of the first selector, in the order of the
  list, that resolves to one; a selector whose query raises is passed over. The
  loop of \<open>navigateToNextReel\<close> has a \<open>catch\<close> of its own, which treats a strategy
  that raises like one that returns false.
\<close>

theorem navigation_strategy_order:
  assumes "getCurrentReelId p w = Some cur"
  shows "(fst (navigateToNextReel p n w) = False \<longleftrightarrow>
            (\<forall>i<5. \<not> succeeds_at (strategies p cur n) i w)) \<and>
         (fst (navigateToNextReel p n w) \<longrightarrow>
            (\<exists>i<5. succeeds_at (strategies p cur n) i w \<and>
                    (\<forall>j<i. \<not> succeeds_at (strategies p cur n) j w) \<and>
                    snd (navigateToNextReel p n w) =
                      snd ((strategies p cur n ! i) (state_before (strategies p cur n) i w)))) \<and>
         (fst (navigateToNextReel p n w) \<longrightarrow>
            (\<exists>v m. (m = default_maxWaitTime \<or> m = 6000) \<and>
                    verifyNavigation p cur m v = (True, snd (navigateToNextReel p n w)))) \<and>
         fst ((strategies p cur n ! 0) v) =
           Ok (\<exists>k<n. key_verified p ''ArrowDown'' cur default_maxWaitTime
                 (attempt_state p (key_attempt p ''ArrowDown'' cur default_maxWaitTime)
                    1000 2000 n k v)) \<and>
         fst ((strategies p cur n ! 1) v) =
           Ok (\<exists>k<n. key_verified p ''ArrowRight'' cur default_maxWaitTime
                 (attempt_state p (key_attempt p ''ArrowRight'' cur default_maxWaitTime)
                    1000 2000 n k v)) \<and>
         fst ((strategies p cur n ! 2) v) =
           Ok (\<exists>k<n. button_verified p cur
                 (attempt_state p (button_attempt p cur) 1500 2500 n k v)) \<and>
         fst ((strategies p cur n ! 3) v) = Ok (swipe_verified p cur v) \<and>
         fst ((strategies p cur n ! 4) v) = Ok (key_verified p ''PageDown'' cur 6000 v) \<and>
         (fst (find_button p buttonSelectors v) = None) =
           (\<forall>i<6. resolves_at p buttonSelectors i v = None) \<and>
         (fst (find_button p buttonSelectors v) = Some b \<longrightarrow>
            (\<exists>i<6. resolves_at p buttonSelectors i v = Some b \<and>
                    (\<forall>j<i. resolves_at p buttonSelectors j v = None))) \<and>
         (\<forall>s ss u. fst (s u) = Thrown \<longrightarrow>
            try_strategies (s # ss) u = try_strategies ss (snd (s u)))"
proof -
  have nav: "navigateToNextReel p n w = try_strategies (strategies p cur n) w"
    using assms by (simp add: navigateToNextReel_def)
  have fails: "fst (navigateToNextReel p n w) = False \<longleftrightarrow>
            (\<forall>i<5. \<not> succeeds_at (strategies p cur n) i w)"
    using try_strategies_fails [of "strategies p cur n" w]
    unfolding nav length_strategies .
  have first: "fst (navigateToNextReel p n w) \<longrightarrow>
            (\<exists>i<5. succeeds_at (strategies p cur n) i w \<and>
                    (\<forall>j<i. \<not> succeeds_at (strategies p cur n) j w) \<and>
                    snd (navigateToNextReel p n w) =
                      snd ((strategies p cur n ! i) (state_before (strategies p cur n) i w)))"
    using try_strategies_first_success [of "strategies p cur n" w]
    unfolding nav length_strategies by blast
  have verified: "fst (navigateToNextReel p n w) \<longrightarrow>
            (\<exists>v m. (m = default_maxWaitTime \<or> m = 6000) \<and>
                    verifyNavigation p cur m v = (True, snd (navigateToNextReel p n w)))"
  proof
    assume "fst (navigateToNextReel p n w)"
    then obtain i where i: "i < 5" "succeeds_at (strategies p cur n) i w"
      "snd (navigateToNextReel p n w) =
         snd ((strategies p cur n ! i) (state_before (strategies p cur n) i w))"
      using first by blast
    have "fst ((strategies p cur n ! i) (state_before (strategies p cur n) i w)) = Ok True"
      using i(2) by (simp add: succeeds_at_def)
    then show "\<exists>v m. (m = default_maxWaitTime \<or> m = 6000) \<and>
                    verifyNavigation p cur m v = (True, snd (navigateToNextReel p n w))"
      using strategy_verified [OF i(1)] i(3) by simp
  qed
  have ret: "fst (returning f v) = Ok (fst (f v))" for f :: "'a \<Rightarrow> bool \<times> 'a"
    by (cases "f v") (simp add: returning_def)
  have s0: "fst ((strategies p cur n ! 0) v) =
           Ok (\<exists>k<n. key_verified p ''ArrowDown'' cur default_maxWaitTime
                 (attempt_state p (key_attempt p ''ArrowDown'' cur default_maxWaitTime)
                    1000 2000 n k v))"
    by (simp add: strategies_def ret navigateWithArrowDown_iff)
  have s1: "fst ((strategies p cur n ! 1) v) =
           Ok (\<exists>k<n. key_verified p ''ArrowRight'' cur default_maxWaitTime
                 (attempt_state p (key_attempt p ''ArrowRight'' cur default_maxWaitTime)
                    1000 2000 n k v))"
    by (simp add: strategies_def ret navigateWithArrowRight_iff)
  have s2: "fst ((strategies p cur n ! 2) v) =
           Ok (\<exists>k<n. button_verified p cur
                 (attempt_state p (button_attempt p cur) 1500 2500 n k v))"
    by (simp add: strategies_def ret navigateWithButtonClick_iff)
  have s3: "fst ((strategies p cur n ! 3) v) = Ok (swipe_verified p cur v)"
    by (simp add: strategies_def ret navigateWithSwipe_iff)
  have s4: "fst ((strategies p cur n ! 4) v) = Ok (key_verified p ''PageDown'' cur 6000 v)"
    by (simp add: strategies_def ret navigateWithPageDown_iff)
  have six: "length buttonSelectors = 6" by (simp add: buttonSelectors_def)
  have b0: "(fst (find_button p buttonSelectors v) = None) =
           (\<forall>i<6. resolves_at p buttonSelectors i v = None)"
    using find_button_none [of p buttonSelectors v] unfolding six .
  have b1: "fst (find_button p buttonSelectors v) = Some b \<longrightarrow>
            (\<exists>i<6. resolves_at p buttonSelectors i v = Some b \<and>
                    (\<forall>j<i. resolves_at p buttonSelectors j v = None))"
    using find_button_first [of p buttonSelectors v b] unfolding six by blast
  have swallow: "\<forall>s ss u. fst (s u) = Thrown \<longrightarrow>
      try_strategies (s # ss) u = try_strategies ss (snd (s u))"
    by (simp add: try_strategies_step)
  show ?thesis
    using fails first verified s0 s1 s2 s3 s4 b0 b1 swallow by (intro conjI)
qed

lemma sim_act_fields:
  "sim_url (sim_act a x w) = (if x = a then ''/reel/B'' else sim_url w)"
  "sim_log (sim_act a x w) = sim_log w @ [x]"
  by (simp_all add: sim_act_def)

lemma sim_verify_same:
  "reel_id_of_url (sim_url w) = Some cur \<Longrightarrow> r \<or> video_selector \<notin> set ps \<Longrightarrow>
     verify_loop (sim_page a r ps) cur M t w = (False, w)"
proof (induction "M - t" arbitrary: t rule: less_induct)
  case less
  show ?case
  proof (cases "t < M")
    case False
    then show ?thesis by (subst verify_loop.simps) simp
  next
    case True
    then have "M - (t + 300) < M - t" by simp
    then have "verify_loop (sim_page a r ps) cur M (t + 300) w = (False, w)"
      using less by blast
    then show ?thesis
      using True less.prems
      by (subst verify_loop.simps)
         (auto simp: Let_def getCurrentReelId_def video_accepts_def sim_page_fields)
  qed
qed

lemma sim_verify_changed:
  "reel_id_of_url (sim_url w) = Some new \<Longrightarrow> new \<noteq> cur \<Longrightarrow> 0 < M \<Longrightarrow>
     verify_loop (sim_page a r ps) cur M 0 w = (True, w)"
  by (subst verify_loop.simps) (simp add: Let_def getCurrentReelId_def sim_page_fields)

lemma sim_id_A: "reel_id_of_url ''/reel/A'' = Some ''A''"
  by (simp add: id_char_def)

lemma sim_id_B: "reel_id_of_url ''/reel/B'' = Some ''B''"
  by (simp add: id_char_def)

lemmas sim_ids = sim_id_A sim_id_B

lemma sim_current: "getCurrentReelId (sim_page a r ps) sim_start = Some ''A''"
  by (simp add: getCurrentReelId_def sim_start_def sim_page_fields id_char_def)

lemma video_not_next:
  \<open>video_selector \<noteq> ''svg[aria-label*="Next"]''\<close> "video_selector \<noteq> ''video''"
  by (simp_all add: video_selector_def)

lemmas sim_eval =
  navigateToNextReel_def getCurrentReelId_def sim_start_def strategies_def
  try_strategies_step returning_def navigateWithArrowDown_def navigateWithArrowRight_def
  navigateWithButtonClick_def navigateWithSwipe_def navigateWithPageDown_def
  button_attempt_def buttonSelectors_def swipe_attempt_def or_false_def
  attempt_loop.simps key_attempt_def and_then_def delay_def verified_def verifyNavigation_def
  sim_verify_same sim_verify_changed default_maxWaitTime_def sim_ids sim_page_fields
  sim_act_def video_not_next Let_def id_char_def

lemma sim_advance_on_ArrowRight:
  "navigateToNextReel (sim_page ''ArrowRight'' True []) 3 sim_start =
     (True, \<lparr>sim_url = ''/reel/B'',
             sim_log = [''ArrowDown'', ''ArrowDown'', ''ArrowDown'', ''ArrowRight'']\<rparr>)"
  by (simp add: sim_eval)

lemma sim_advance_on_click:
  "navigateToNextReel (sim_page ''click'' False [next_svg]) 3 sim_start =
     (True, \<lparr>sim_url = ''/reel/B'',
             sim_log = [''ArrowDown'', ''ArrowDown'', ''ArrowDown'',
                        ''ArrowRight'', ''ArrowRight'', ''ArrowRight'', ''click'']\<rparr>)"
  by (simp add: sim_eval next_svg_def)

lemma sim_advance_on_swipe:
  "navigateToNextReel (sim_page ''swipe'' False [''video'']) 3 sim_start =
     (True, \<lparr>sim_url = ''/reel/B'',
             sim_log = [''ArrowDown'', ''ArrowDown'', ''ArrowDown'',
                        ''ArrowRight'', ''ArrowRight'', ''ArrowRight'', ''swipe'']\<rparr>)"
  by (simp add: sim_eval)

lemma sim_advance_stuck:
  "navigateToNextReel (sim_page ''none'' True []) 3 sim_start =
     (False, \<lparr>sim_url = ''/reel/A'',
              sim_log = [''ArrowDown'', ''ArrowDown'', ''ArrowDown'',
                         ''ArrowRight'', ''ArrowRight'', ''ArrowRight'', ''PageDown'']\<rparr>)"
  by (simp add: sim_eval)

text \<open>
  On the simulated browser, with three retries: when the ArrowRight key advances,
  the call presses ArrowDown three times, then ArrowRight once, and returns true;
  when the click on the button advances, or the swipe, the keys before it are
  pressed three times each first; when nothing advances and every element query
  raises, all five strategies run (the button click and the swipe end at the
  raising query) and the call returns false.
\<close>

theorem navigation_strategy_order_witness:
  "getCurrentReelId (sim_page ''none'' True []) sim_start = Some ''A'' \<and>
   navigateToNextReel (sim_page ''ArrowRight'' True []) 3 sim_start =
     (True, \<lparr>sim_url = ''/reel/B'',
             sim_log = [''ArrowDown'', ''ArrowDown'', ''ArrowDown'', ''ArrowRight'']\<rparr>) \<and>
   navigateToNextReel (sim_page ''click'' False [next_svg]) 3 sim_start =
     (True, \<lparr>sim_url = ''/reel/B'',
             sim_log = [''ArrowDown'', ''ArrowDown'', ''ArrowDown'',
                        ''ArrowRight'', ''ArrowRight'', ''ArrowRight'', ''click'']\<rparr>) \<and>
   navigateToNextReel (sim_page ''swipe'' False [''video'']) 3 sim_start =
     (True, \<lparr>sim_url = ''/reel/B'',
             sim_log = [''ArrowDown'', ''ArrowDown'', ''ArrowDown'',
                        ''ArrowRight'', ''ArrowRight'', ''ArrowRight'', ''swipe'']\<rparr>) \<and>
   navigateToNextReel (sim_page ''none'' True []) 3 sim_start =
     (False, \<lparr>sim_url = ''/reel/A'',
              sim_log = [''ArrowDown'', ''ArrowDown'', ''ArrowDown'',
                         ''ArrowRight'', ''ArrowRight'', ''ArrowRight'', ''PageDown'']\<rparr>) \<and>
   \<not> succeeds_at (strategies (sim_page ''none'' True []) ''A'' 3) 0 sim_start \<and>
   \<not> succeeds_at (strategies (sim_page ''none'' True []) ''A'' 3) 1 sim_start \<and>
   \<not> succeeds_at (strategies (sim_page ''none'' True []) ''A'' 3) 2 sim_start \<and>
   \<not> succeeds_at (strategies (sim_page ''none'' True []) ''A'' 3) 3 sim_start \<and>
   \<not> succeeds_at (strategies (sim_page ''none'' True []) ''A'' 3) 4 sim_start \<and>
   (\<exists>v m. (m = default_maxWaitTime \<or> m = 6000) \<and>
      verifyNavigation (sim_page ''click'' False [next_svg]) ''A'' m v =
        (True, \<lparr>sim_url = ''/reel/B'',
                sim_log = [''ArrowDown'', ''ArrowDown'', ''ArrowDown'',
                           ''ArrowRight'', ''ArrowRight'', ''ArrowRight'', ''click'']\<rparr>))"
proof -
  note h = sim_current
  have "fst (navigateToNextReel (sim_page ''none'' True []) 3 sim_start) = False"
    by (simp add: sim_advance_stuck)
  then have "\<forall>i<5. \<not> succeeds_at (strategies (sim_page ''none'' True []) ''A'' 3) i sim_start"
    using navigation_strategy_order [OF h [of "''none''" True "[]"], where n = 3,
        THEN conjunct1]
    by simp
  then have stuck: "\<not> succeeds_at (strategies (sim_page ''none'' True []) ''A'' 3) 0 sim_start"
    "\<not> succeeds_at (strategies (sim_page ''none'' True []) ''A'' 3) 1 sim_start"
    "\<not> succeeds_at (strategies (sim_page ''none'' True []) ''A'' 3) 2 sim_start"
    "\<not> succeeds_at (strategies (sim_page ''none'' True []) ''A'' 3) 3 sim_start"
    "\<not> succeeds_at (strategies (sim_page ''none'' True []) ''A'' 3) 4 sim_start"
    by simp_all
  have "fst (navigateToNextReel (sim_page ''click'' False [next_svg]) 3 sim_start)"
    by (simp add: sim_advance_on_click)
  then have "\<exists>v m. (m = default_maxWaitTime \<or> m = 6000) \<and>
      verifyNavigation (sim_page ''click'' False [next_svg]) ''A'' m v =
        (True, snd (navigateToNextReel (sim_page ''click'' False [next_svg]) 3 sim_start))"
    using navigation_strategy_order [OF h [of "''click''" False "[next_svg]"], where n = 3,
        THEN conjunct2, THEN conjunct2, THEN conjunct1]
    by simp
  then have click: "\<exists>v m. (m = default_maxWaitTime \<or> m = 6000) \<and>
      verifyNavigation (sim_page ''click'' False [next_svg]) ''A'' m v =
        (True, \<lparr>sim_url = ''/reel/B'',
                sim_log = [''ArrowDown'', ''ArrowDown'', ''ArrowDown'',
                           ''ArrowRight'', ''ArrowRight'', ''ArrowRight'', ''click'']\<rparr>)"
    by (simp add: sim_advance_on_click)
  show ?thesis
    using h [of "''none''" True "[]"] stuck click sim_advance_on_ArrowRight
      sim_advance_on_click sim_advance_on_swipe sim_advance_stuck
    by (intro conjI)
qed

text \<open>
  Examples for the verification, on the simulated browser and with the default
  bound: where the identifier never changes and no video element is found it
  returns false; after an advance it returns true; and where a loaded video element
  is found it returns true although the identifier never changes. A round that ends
  at 5700 ms is past 70 percent of 8000 ms, one that ends at 5400 ms is not.
\<close>

theorem verifyNavigation_bound_witness:
  "(8000 :: nat) \<le> 2 ^ 49 \<and> 10 * 5700 > 7 * (8000 :: nat) \<and>
   past_70_percent 5700 8000 \<and> \<not> past_70_percent 5400 8000 \<and>
   \<not> fst (verifyNavigation (sim_page ''none'' False []) ''A'' default_maxWaitTime sim_start) \<and>
   fst (verifyNavigation (sim_page ''none'' False []) ''A'' default_maxWaitTime
          (sim_start\<lparr>sim_url := ''/reel/B''\<rparr>)) \<and>
   fst (verifyNavigation (sim_page ''none'' False [video_selector]) ''A'' default_maxWaitTime
          sim_start)"
proof -
  have h: "(8000 :: nat) \<le> 2 ^ 49" by simp
  have k: "\<exists>k<27::nat. 18 \<le> k" by (rule exI [of _ 18]) simp
  have k0: "\<exists>k::nat. k < 27" by (rule exI [of _ 0]) simp
  have same: "\<not> id_changed (sim_page a r ps) ''A'' sim_start" for a r ps
    by (simp add: id_changed_def getCurrentReelId_def sim_start_def sim_page_fields id_char_def)
  have changed: "id_changed (sim_page a r ps) ''A'' (sim_start\<lparr>sim_url := ''/reel/B''\<rparr>)"
    for a r ps
    by (simp add: id_changed_def getCurrentReelId_def sim_start_def sim_page_fields id_char_def)
  have none: "\<not> video_loaded (sim_page ''none'' False []) w" for w
    by (simp add: video_loaded_def sim_page_fields)
  have some: "video_loaded (sim_page ''none'' False [video_selector]) w" for w
    by (simp add: video_loaded_def sim_page_fields)
  have past: "past_70_percent 5700 8000 \<and> \<not> past_70_percent 5400 8000"
    using verifyNavigation_bound [OF h, of "sim_page ''none'' False []" "''A''" sim_start 5700]
      verifyNavigation_bound [OF h, of "sim_page ''none'' False []" "''A''" sim_start 5400]
    by simp
  have v1: "\<not> fst (verifyNavigation (sim_page ''none'' False []) ''A'' default_maxWaitTime
      sim_start)"
    using verifyNavigation_bound [OF h, of "sim_page ''none'' False []" "''A''" sim_start]
    by (simp add: sim_poll_state same none)
  have v2: "fst (verifyNavigation (sim_page ''none'' False []) ''A'' default_maxWaitTime
          (sim_start\<lparr>sim_url := ''/reel/B''\<rparr>))"
    using verifyNavigation_bound [OF h, of "sim_page ''none'' False []" "''A''"
        "sim_start\<lparr>sim_url := ''/reel/B''\<rparr>"] k0
    by (simp add: sim_poll_state changed)
  have v3: "fst (verifyNavigation (sim_page ''none'' False [video_selector]) ''A''
      default_maxWaitTime sim_start)"
    using verifyNavigation_bound [OF h, of "sim_page ''none'' False [video_selector]" "''A''"
        sim_start] k
    by (simp add: sim_poll_state same some)
  show ?thesis using h past v1 v2 v3 by simp
qed

section \<open>Properties of the backoff delay and of the failure counters\<close>

lemma exponentialDelay_mono: "n \<le> m \<Longrightarrow> exponentialDelay n \<le> exponentialDelay m"
proof -
  assume "n \<le> m"
  then have "(2::rat) powi (int n - 1) \<le> 2 powi (int m - 1)"
    by (intro power_int_increasing) simp_all
  then show ?thesis by (simp add: exponentialDelay_def baseDelay_def)
qed

text \<open>
  C7. The delay before jitter does not decrease when the number of consecutive
  failures grows, and never exceeds the maximum of 15000 ms; for 1, 2 and 3
  failures it is 2000, 4000 and 8000 ms.
\<close>

theorem backoff_monotone:
  "(n \<le> m \<longrightarrow> backoff_delay n \<le> backoff_delay m) \<and>
   backoff_delay n \<le> maxDelay \<and> maxDelay = 15000 \<and>
   backoff_delay 1 = 2000 \<and> backoff_delay 2 = 4000 \<and> backoff_delay 3 = 8000"
proof -
  have "backoff_delay n \<le> backoff_delay m" if "n \<le> m"
    using exponentialDelay_mono [OF that] by (simp add: backoff_delay_def min_def)
  moreover have "backoff_delay n \<le> maxDelay" by (simp add: backoff_delay_def)
  moreover have "backoff_delay 1 = 2000 \<and> backoff_delay 2 = 4000 \<and> backoff_delay 3 = 8000"
    by (simp add: backoff_delay_def exponentialDelay_def baseDelay_def maxDelay_def)
  ultimately show ?thesis by (simp add: maxDelay_def)
qed

theorem backoff_monotone_witness:
  "(2::nat) \<le> 4 \<and> backoff_delay 2 \<le> backoff_delay 4 \<and> backoff_delay 4 = 15000 \<and>
   backoff_delay 4 \<le> maxDelay"
proof -
  have "backoff_delay 4 = 15000"
    by (simp add: backoff_delay_def exponentialDelay_def baseDelay_def maxDelay_def)
  then show ?thesis using backoff_monotone [of 2 4] by simp
qed

lemma advance_failures_ge:
  "navigationFailures c \<le> navigationFailures (advance target it c)"
  by (simp add: advance_def Let_def)

lemma loop_body_no_reset:
  assumes "\<not> resets_failures it"
  shows "navigationFailures c \<le> navigationFailures (fst (loop_body target it c))"
proof (cases "thrown it = Some ThrownEarly \<or> \<not> onReelPage it")
  case True
  then show ?thesis by (auto simp: loop_body_def catch_error_def)
next
  case False
  then show ?thesis
  proof (cases "extraction it")
    case NoReelData
    have "navigationFailures c \<le> navigationFailures
        (c\<lparr>reelsCollected := reelsCollected c +
             min (drained it) (min 3 (target - reelsCollected c)),
           navigationFailures := navigationFailures c + 1\<rparr>)" by simp
    also have "\<dots> \<le> navigationFailures (advance target it
        (c\<lparr>reelsCollected := reelsCollected c +
             min (drained it) (min 3 (target - reelsCollected c)),
           navigationFailures := navigationFailures c + 1\<rparr>))"
      by (rule advance_failures_ge)
    finally show ?thesis using False NoReelData by (simp add: loop_body_def Let_def)
  next
    case AlreadyInSession
    have "navigationFailures c \<le> navigationFailures (advance target it
        (c\<lparr>reelsCollected := reelsCollected c +
             min (drained it) (min 3 (target - reelsCollected c))\<rparr>))"
      using advance_failures_ge [of "c\<lparr>reelsCollected := reelsCollected c +
             min (drained it) (min 3 (target - reelsCollected c))\<rparr>" target it] by simp
    then show ?thesis using False AlreadyInSession by (simp add: loop_body_def Let_def)
  next
    case Saved
    then have "thrown it = Some ThrownAtLike"
      using assms False by (simp add: resets_failures_def)
    then show ?thesis using False Saved by (simp add: loop_body_def Let_def catch_error_def)
  next
    case NotSaved
    then show ?thesis using assms False by (simp add: resets_failures_def)
  qed
qed

lemma advance_failures_gt:
  "reelsCollected c < target \<Longrightarrow> \<not> navigated it \<Longrightarrow> \<not> retryNavigated it \<Longrightarrow>
     navigationFailures c < navigationFailures (advance target it c)"
  by (simp add: advance_def Let_def)

lemma reelsCollected_advance: "reelsCollected (advance target it c) = reelsCollected c"
  by (simp add: advance_def Let_def)

lemma loop_body_advance_fails:
  assumes "\<not> resets_failures it" and "advance_fails target it c"
  shows "navigationFailures c < navigationFailures (fst (loop_body target it c))"
proof -
  have none: "thrown it = None" and page: "onReelPage it"
    and nav: "\<not> navigated it" "\<not> retryNavigated it"
    and more: "reelsCollected (fst (loop_body target it c)) < target"
    using assms(2) by (simp_all add: advance_fails_def)
  define c1 where "c1 = c\<lparr>reelsCollected := reelsCollected c +
             min (drained it) (min 3 (target - reelsCollected c))\<rparr>"
  have nf1: "navigationFailures c1 = navigationFailures c" by (simp add: c1_def)
  show ?thesis
  proof (cases "extraction it")
    case NoReelData
    let ?c2 = "c1\<lparr>navigationFailures := navigationFailures c1 + 1\<rparr>"
    have lb: "fst (loop_body target it c) = advance target it ?c2"
      using none page NoReelData by (simp add: loop_body_def Let_def c1_def)
    then have "reelsCollected ?c2 < target"
      using more by (simp only: reelsCollected_advance)
    then have "navigationFailures ?c2 < navigationFailures (advance target it ?c2)"
      using nav by (rule advance_failures_gt)
    then show ?thesis unfolding lb using nf1 by simp
  next
    case AlreadyInSession
    have lb: "fst (loop_body target it c) = advance target it c1"
      using none page AlreadyInSession by (simp add: loop_body_def Let_def c1_def)
    then have "reelsCollected c1 < target"
      using more by (simp only: reelsCollected_advance)
    then have "navigationFailures c1 < navigationFailures (advance target it c1)"
      using nav by (rule advance_failures_gt)
    then show ?thesis unfolding lb using nf1 by simp
  next
    case Saved
    then show ?thesis using assms(1) none page by (simp add: resets_failures_def)
  next
    case NotSaved
    then show ?thesis using assms(1) none page by (simp add: resets_failures_def)
  qed
qed

lemma loop_body_reset:
  assumes "resets_failures it" and "thrown it = None" and "navigated it"
  shows "navigationFailures (fst (loop_body target it c)) = 0"
  using assms
  by (cases "extraction it") (auto simp: loop_body_def resets_failures_def advance_def Let_def)

lemma scrape_loop_no_reset:
  "list_all (\<lambda>it. \<not> resets_failures it) its \<Longrightarrow>
     navigationFailures c \<le> navigationFailures (scrape_loop target its c)"
proof (induction its arbitrary: c)
  case Nil
  show ?case by simp
next
  case (Cons it its)
  have step: "navigationFailures c \<le> navigationFailures (fst (loop_body target it c))"
    using Cons.prems by (simp add: loop_body_no_reset)
  have rest: "navigationFailures (fst (loop_body target it c))
      \<le> navigationFailures (scrape_loop target its (fst (loop_body target it c)))"
    using Cons.IH Cons.prems by simp
  show ?case
    using step rest
    by (cases "loop_body target it c") (auto split: bool.splits)
qed

text \<open>
  C8, as the code has it. \<open>navigationFailures\<close> goes up when the advance call of a
  pass exhausts all strategies and the retry does not succeed, and it does not go
  down in a pass, or over any run of passes, in which no record reaches the
  assignment \<open>navigationFailures = 0\<close> that follows \<open>savePost\<close>. A pass that saves a
  record, or finds it to be a duplicate in storage, and then advances sets the
  counter to 0.
\<close>

theorem navigation_failures_step:
  "(\<not> resets_failures it \<longrightarrow>
      navigationFailures c \<le> navigationFailures (fst (loop_body target it c))) \<and>
   (\<not> resets_failures it \<and> advance_fails target it c \<longrightarrow>
      navigationFailures c < navigationFailures (fst (loop_body target it c))) \<and>
   (list_all (\<lambda>it. \<not> resets_failures it) its \<longrightarrow>
      navigationFailures c \<le> navigationFailures (scrape_loop target its c)) \<and>
   (resets_failures it \<and> thrown it = None \<and> navigated it \<longrightarrow>
      navigationFailures (fst (loop_body target it c)) = 0)"
  using loop_body_no_reset [of it c target] loop_body_advance_fails [of it target c]
    scrape_loop_no_reset [of its c target] loop_body_reset [of it target c]
  by blast

theorem navigation_failures_step_witness:
  "\<not> resets_failures stuck_pass \<and> advance_fails 10 stuck_pass initial_counters \<and>
   navigationFailures initial_counters
     < navigationFailures (fst (loop_body 10 stuck_pass initial_counters)) \<and>
   list_all (\<lambda>it. \<not> resets_failures it) [stuck_pass, unreadable_pass] \<and>
   navigationFailures (scrape_loop 10 [stuck_pass, unreadable_pass] initial_counters) = 2 \<and>
   resets_failures saved_pass \<and> thrown saved_pass = None \<and> navigated saved_pass \<and>
   navigationFailures (fst (loop_body 10 saved_pass
     (initial_counters\<lparr>navigationFailures := 2\<rparr>))) = 0"
proof -
  have h1: "\<not> resets_failures stuck_pass" by code_simp
  have h2: "advance_fails 10 stuck_pass initial_counters" by code_simp
  have h3: "list_all (\<lambda>it. \<not> resets_failures it) [stuck_pass, unreadable_pass]" by code_simp
  have h4: "resets_failures saved_pass \<and> thrown saved_pass = None \<and> navigated saved_pass"
    by code_simp
  have v: "navigationFailures (scrape_loop 10 [stuck_pass, unreadable_pass] initial_counters) = 2"
    by code_simp
  show ?thesis
    using h1 h2 h3 h4 v
      navigation_failures_step [of stuck_pass initial_counters 10 "[stuck_pass, unreadable_pass]"]
      navigation_failures_step [of saved_pass "initial_counters\<lparr>navigationFailures := 2\<rparr>" 10 "[]"]
    by simp
qed

text \<open>
  The claim says the counter never decreases within a session. From the initial
  counters, a pass that cannot read its reel leaves \<open>navigationFailures = 1\<close>; the
  next pass saves a reel and the counter is 0.
\<close>

theorem navigation_failures_reset_on_save:
  "navigationFailures (scrape_loop 10 [unreadable_pass, saved_pass] initial_counters)
     < navigationFailures (scrape_loop 10 [unreadable_pass] initial_counters)"
  by code_simp


section \<open>Properties of the merge functions\<close>




























section \<open>Identifiers of cached and stored records\<close>

lemma post_id_with_prop: "post_id (with_prop ''screenshot_path'' v r) = post_id r"
  by (cases r) (simp_all add: post_id_def update_conv')

lemma truthy_with_prop: "truthy (with_prop k v r) = truthy r"
  by (cases r) simp_all

lemma has_id_with_prop: "has_id (with_prop ''screenshot_path'' v r) = has_id r"
  by (simp only: has_id_def post_id_with_prop truthy_with_prop)

lemma truthy_post_id_has_id: "truthy (post_id r) \<Longrightarrow> has_id r"
  using truthy_jprop_object [of "''post_id''" r] by (auto simp: has_id_def post_id_def)

lemma collector_inv_replace_entry:
  assumes inv: "collector_inv c" and r: "has_id r" and k: "post_id r = k"
  shows "collector_inv (replace_entry k r c)"
proof -
  let ?cs = "collectedReels c"
  let ?f = "\<lambda>e. if fst e = k then (k, r) else e"
  have nr: "networkReels c = map snd ?cs" using inv unfolding collector_inv_def by metis
  have "map fst ?cs = map post_id (map snd ?cs)"
    using inv unfolding collector_inv_def by metis
  then have ids: "\<forall>e \<in> set ?cs. fst e = post_id (snd e)" by (simp add: comp_def)
  have fp: "map fst ?cs = map post_id (map snd ?cs)"
    using inv unfolding collector_inv_def by metis
  have d: "distinct (map fst ?cs)" using inv unfolding collector_inv_def by blast
  have all: "list_all has_id (map snd ?cs)" using inv nr unfolding collector_inv_def by metis
  have fst_f: "map fst (map ?f ?cs) = map fst ?cs" by (auto simp: comp_def)
  have snd_f: "map snd (map ?f ?cs) = map (\<lambda>v. if post_id v = k then r else v) (map snd ?cs)"
    using ids by (auto simp: comp_def)
  have pid: "map post_id (map (\<lambda>v. if post_id v = k then r else v) (map snd ?cs)) =
             map post_id (map snd ?cs)"
    using k by (auto simp: comp_def)
  have all': "list_all has_id (map (\<lambda>v. if post_id v = k then r else v) (map snd ?cs))"
    using all r by (auto simp: list_all_iff)
  have c1: "collectedReels (replace_entry k r c) = map ?f ?cs"
    by (simp add: replace_entry_def)
  have c2: "networkReels (replace_entry k r c) =
            map (\<lambda>v. if post_id v = k then r else v) (map snd ?cs)"
    by (simp add: replace_entry_def nr)
  show ?thesis
    unfolding collector_inv_def c1 c2
  proof (intro conjI)
    show "map snd (map ?f ?cs) = map (\<lambda>v. if post_id v = k then r else v) (map snd ?cs)"
      by (rule snd_f)
    show "map fst (map ?f ?cs) =
          map post_id (map (\<lambda>v. if post_id v = k then r else v) (map snd ?cs))"
      by (simp only: fst_f pid fp)
    show "distinct (map fst (map ?f ?cs))" by (simp only: fst_f d)
    show "list_all has_id (map (\<lambda>v. if post_id v = k then r else v) (map snd ?cs))"
      by (rule all')
  qed
qed


lemma post_id_attach_screenshot: "post_id (attach_screenshot p r) = post_id r"
  by (simp add: attach_screenshot_def post_id_with_prop)

lemma truthy_attach_screenshot: "truthy (attach_screenshot p r) = truthy r"
  by (simp add: attach_screenshot_def truthy_with_prop)

lemma post_id_default_screenshot: "post_id (default_screenshot r) = post_id r"
  by (simp add: default_screenshot_def post_id_with_prop)

lemma save_unsaved_inv:
  assumes inv: "session_inv sc"
  shows "session_inv (save_unsaved storage n sc u)"
proof (cases storage)
  case None
  then show ?thesis using inv by (simp add: save_unsaved_def)
next
  case (Some savePost)
  show ?thesis
  proof (cases "truthy (post_id u) \<and> collected (fst sc) < n")
    case False
    then have "save_unsaved storage n sc u = sc"
      unfolding save_unsaved_def Some by (simp only: option.case if_False)
    then show ?thesis using inv by simp
  next
    case True
    define r where "r = default_screenshot u"
    have pr: "post_id r = post_id u" by (simp add: r_def post_id_default_screenshot)
    then have tr: "truthy (post_id r)" using True by simp
    have hr: "has_id r" using tr by (rule truthy_post_id_has_id)
    have "collector_inv (snd sc)" using inv by (simp add: session_inv_def)
    then have ci: "collector_inv (replace_entry (post_id u) r (snd sc))"
      using hr pr by (rule collector_inv_replace_entry)
    have rs: "list_all (\<lambda>r. truthy (post_id r)) (reels (fst sc))"
      and os: "list_all (\<lambda>r. truthy (post_id r)) (offered (fst sc))"
      using inv by (simp_all add: session_inv_def)
    show ?thesis
      unfolding save_unsaved_def Some Let_def r_def [symmetric]
      using True ci rs os tr by (simp add: session_inv_def)
  qed
qed

lemma foldl_save_unsaved_inv:
  "session_inv sc \<Longrightarrow> session_inv (foldl (save_unsaved storage n) sc us)"
  by (induction us arbitrary: sc) (simp_all add: save_unsaved_inv)

lemma drain_inv: "session_inv sc \<Longrightarrow> session_inv (drain storage n sc)"
  by (simp add: drain_def Let_def foldl_save_unsaved_inv)

lemma collector_inv_deliver:
  "collector_inv c \<Longrightarrow> collector_inv (deliver JSON_parse lc positive arrivals c)"
  unfolding deliver_def
  by (induction arrivals arbitrary: c) (simp_all add: collector_inv_sendDataToNode)

lemma collector_inv_dom_fallback:
  "collector_inv c \<Longrightarrow> collector_inv (snd (dom_fallback domData c))"
  by (simp add: dom_fallback_def collector_inv_addReel)

lemma collector_inv_resolve_reel:
  "collector_inv c \<Longrightarrow>
   collector_inv (snd (resolve_reel JSON_parse lc positive currentReelId domData arrivals c))"
  by (simp add: resolve_reel_def collector_inv_dom_fallback collector_inv_deliver
        split: option.splits)

text \<open>
  For an identifier that is cached, the pass takes the intercepted record as it is;
  the DOM fallback is not consulted and nothing is merged.
\<close>

lemma resolve_reel_cached:
  "i \<noteq> [] \<Longrightarrow> hasReel (JStr i) c \<Longrightarrow>
   resolve_reel JSON_parse lc positive (Some i) domData arrivals c = (getReel (JStr i) c, c)"
  by (simp add: resolve_reel_def)

lemma alias_key_resolved:
  assumes inv: "collector_inv c"
    and a: "alias_key JSON_parse lc positive currentReelId domData arrivals c = Some k"
  shows "post_id (fst (resolve_reel JSON_parse lc positive currentReelId domData arrivals c)) = k"
    and "has_id (fst (resolve_reel JSON_parse lc positive currentReelId domData arrivals c))"
proof -
  let ?r = "fst (resolve_reel JSON_parse lc positive currentReelId domData arrivals c)"
  have "post_id ?r = k \<and> has_id ?r"
  proof (cases "case currentReelId of Some i \<Rightarrow> truthy (JStr i) \<and> hasReel (JStr i) c
                | None \<Rightarrow> False")
    case True
    then obtain i where i: "currentReelId = Some i" "truthy (JStr i)" "hasReel (JStr i) c"
      by (cases currentReelId) simp_all
    have k: "k = JStr i" using a True i(1) by (simp add: alias_key_def)
    have r: "?r = getReel (JStr i) c" using i by (simp add: resolve_reel_def)
    show ?thesis
      using getReel_cached [OF inv i(3)] i(2) unfolding r k by (simp add: has_id_def)
  next
    case False
    then have r: "?r = domData"
      by (cases currentReelId) (auto simp: resolve_reel_def dom_fallback_def)
    have "truthy domData \<and> truthy (post_id domData) \<and> k = post_id domData"
      using a False by (auto simp: alias_key_def split: if_splits)
    then show ?thesis unfolding r by (simp add: has_id_def)
  qed
  then show "post_id ?r = k" and "has_id ?r" by simp_all
qed

lemma save_current_inv:
  assumes "list_all (\<lambda>r. truthy (post_id r)) (reels s)"
    and "list_all (\<lambda>r. truthy (post_id r)) (offered s)"
  shows "list_all (\<lambda>r. truthy (post_id r)) (reels (snd (save_current storage reelData s)))"
    and "list_all (\<lambda>r. truthy (post_id r)) (offered (snd (save_current storage reelData s)))"
  using assms by (simp_all add: save_current_def Let_def split: option.splits)

lemma persist_pass_inv:
  assumes inv: "session_inv sc"
  shows "session_inv (snd (persist_pass JSON_parse lc positive storage n currentReelId domData
           arrivals screenshotPath sc))"
proof -
  define resolved where
    "resolved = resolve_reel JSON_parse lc positive currentReelId domData arrivals (snd sc)"
  define akey where
    "akey = alias_key JSON_parse lc positive currentReelId domData arrivals (snd sc)"
  define reelData where "reelData = attach_screenshot screenshotPath (fst resolved)"
  define c1 where
    "c1 = (case akey of
             Some k \<Rightarrow> if truthy (fst resolved) then replace_entry k reelData (snd resolved)
                       else snd resolved
           | None \<Rightarrow> snd resolved)"
  define drained_sc where "drained_sc = drain storage n (fst sc, c1)"
  have ci: "collector_inv (snd sc)" using inv by (simp add: session_inv_def)
  have cr: "collector_inv (snd resolved)"
    unfolding resolved_def using ci by (rule collector_inv_resolve_reel)
  have c1_inv: "collector_inv c1"
  proof (cases akey)
    case None
    then show ?thesis using cr by (simp add: c1_def)
  next
    case (Some k)
    have a: "alias_key JSON_parse lc positive currentReelId domData arrivals (snd sc) = Some k"
      using Some by (simp add: akey_def)
    have "post_id reelData = k"
      using alias_key_resolved(1) [OF ci a]
      by (simp add: reelData_def resolved_def post_id_attach_screenshot)
    moreover have "has_id reelData"
      using alias_key_resolved [OF ci a]
      by (simp add: reelData_def resolved_def has_id_def post_id_attach_screenshot
            truthy_attach_screenshot)
    ultimately have "collector_inv (replace_entry k reelData (snd resolved))"
      using cr collector_inv_replace_entry by blast
    then show ?thesis using cr Some by (simp add: c1_def)
  qed
  have "session_inv (fst sc, c1)" using inv c1_inv by (simp add: session_inv_def)
  then have d: "session_inv drained_sc" unfolding drained_sc_def by (rule drain_inv)
  have p: "snd (persist_pass JSON_parse lc positive storage n currentReelId domData
             arrivals screenshotPath sc) =
           (snd (save_current storage reelData (fst drained_sc)), snd drained_sc)"
    unfolding persist_pass_def Let_def drained_sc_def c1_def reelData_def akey_def
      resolved_def
    by simp
  show ?thesis
    unfolding p using d save_current_inv [of "fst drained_sc" storage reelData]
    by (simp add: session_inv_def)
qed

lemma cache_step_inv:
  assumes "session_inv sc"
  shows "session_inv (cache_step JSON_parse lc positive storage n sc ev)"
proof (cases ev)
  case (Intercepted pkt)
  then show ?thesis using assms by (simp add: session_inv_def collector_inv_sendDataToNode)
next
  case (Pass currentReelId domData arrivals screenshotPath likeThrows)
  obtain outcome s c where
    p: "persist_pass JSON_parse lc positive storage n currentReelId domData arrivals
          screenshotPath sc = (outcome, s, c)"
    by (cases "persist_pass JSON_parse lc positive storage n currentReelId domData arrivals
          screenshotPath sc") auto
  have "session_inv (s, c)" using persist_pass_inv [OF assms, of JSON_parse lc positive storage n
      currentReelId domData arrivals screenshotPath] by (simp add: p)
  then show ?thesis using Pass p by (simp add: session_inv_def)
next
  case Reset
  then show ?thesis using assms by (simp add: session_inv_def collector_inv_clear)
qed

lemma cache_after_inv: "session_inv (cache_after JSON_parse lc positive storage n st events)"
proof -
  have "session_inv sc \<Longrightarrow>
        session_inv (foldl (cache_step JSON_parse lc positive storage n) sc events)" for sc
    by (induction events arbitrary: sc) (simp_all add: cache_step_inv)
  then show ?thesis
    by (simp add: cache_after_def session_inv_def collector_inv_new)
qed


lemma session_inv_ids:
  assumes "session_inv sc"
  shows "list_all (\<lambda>r. truthy (post_id r)) (getAllReels (snd sc))"
    and "list_all (\<lambda>r. truthy (post_id r)) (getNetworkReels (snd sc))"
    and "list_all (\<lambda>r. truthy (post_id r)) (offered (fst sc))"
proof -
  have inv: "collector_inv (snd sc)" using assms by (simp add: session_inv_def)
  then have "list_all has_id (networkReels (snd sc))" unfolding collector_inv_def by blast
  then show nr: "list_all (\<lambda>r. truthy (post_id r)) (getNetworkReels (snd sc))"
    by (simp add: list_all_iff has_id_def getNetworkReels_def)
  have "getAllReels (snd sc) = getNetworkReels (snd sc)"
    using inv unfolding collector_inv_def getAllReels_def getNetworkReels_def by blast
  then show "list_all (\<lambda>r. truthy (post_id r)) (getAllReels (snd sc))" using nr by simp
  show "list_all (\<lambda>r. truthy (post_id r)) (offered (fst sc))"
    using assms by (simp add: session_inv_def)
qed

text \<open>The session after the response \<open>sample_text\<close> has been intercepted.\<close>

lemma sample_text_cached:
  "snd (sendDataToNode JSON_parse_sample toLowerCase_ascii never_positive
     (sample_packet sample_text) new_collector) = sample_cache"
proof -
  have "clean_body sample_text = sample_text"
    by (rule clean_body_plain) (rule sample_text_plain(1))
  then show ?thesis unfolding sample_cache_def by (rule sample_packet_cached)
qed

lemma cache_after_intercepted_sample:
  "cache_after JSON_parse_sample toLowerCase_ascii never_positive storage n [] 
     (Intercepted (sample_packet sample_text) # events) =
   foldl (cache_step JSON_parse_sample toLowerCase_ascii never_positive storage n)
     (sample_start, sample_cache) events"
  by (simp add: cache_after_def sample_text_cached sample_start_def)

lemma cache_after_sample_events:
  "cache_after JSON_parse_sample toLowerCase_ascii never_positive (Some keep_all) 5 []
     sample_events = sample_session"
  unfolding sample_events_def cache_after_intercepted_sample sample_session_def ..

text \<open>
  C2, as the code has it. Whatever packets are intercepted and whatever the passes
  of the scrape loop read, every record held by the collector and every record
  passed to \<open>savePost\<close> has a truthy \<open>post_id\<close> (not \<open>null\<close>, not \<open>undefined\<close>, not
  the empty string). The extractor returns \<open>null\<close> for an item without identifier,
  and \<open>addReel\<close> ignores a record without one. The counts of a record are not
  examined on the way into the cache or to the storage.
\<close>

theorem cached_records_have_ids:
  "list_all (\<lambda>r. truthy (post_id r))
     (getAllReels (snd (cache_after JSON_parse toLowerCase positive storage n st events))) \<and>
   list_all (\<lambda>r. truthy (post_id r))
     (getNetworkReels (snd (cache_after JSON_parse toLowerCase positive storage n st events))) \<and>
   list_all (\<lambda>r. truthy (post_id r))
     (offered (fst (cache_after JSON_parse toLowerCase positive storage n st events))) \<and>
   (\<not> truthy (item_id item) \<longrightarrow>
      extractReelDataFromItem toLowerCase item = JNull \<and>
      collect (extractReelFromGraphQLItem toLowerCase item) c = (Returned, c)) \<and>
   (\<not> truthy (post_id r) \<longrightarrow> addReel r c = (Inr JUndefined, c))"
proof -
  have inv: "session_inv (cache_after JSON_parse toLowerCase positive storage n st events)"
    by (rule cache_after_inv)
  have "extractReelFromGraphQLItem toLowerCase item = JNull" if "\<not> truthy (item_id item)"
    using that by (simp add: extractReelFromGraphQLItem_def extractReelDataFromItem_no_id)
  then have "collect (extractReelFromGraphQLItem toLowerCase item) c = (Returned, c)"
    if "\<not> truthy (item_id item)"
    using that by (simp add: collect_def)
  then show ?thesis
    using session_inv_ids [OF inv]
    by (simp add: extractReelDataFromItem_no_id addReel_def)
qed

text \<open>
  An example session: the response \<open>sample_text\<close> is intercepted and its record
  cached under \<open>X\<close>; a pass on the reel \<open>Y\<close>, which is not cached, takes the record
  of the DOM fallback and drains \<open>X\<close>; a pass whose fallback record has no identifier
  changes nothing.
\<close>

theorem cached_records_have_ids_witness:
  "list_all (\<lambda>r. truthy (post_id r))
     (getAllReels (snd (cache_after JSON_parse_sample toLowerCase_ascii never_positive
        (Some keep_all) 5 [] sample_events))) \<and>
   list_all (\<lambda>r. truthy (post_id r))
     (offered (fst (cache_after JSON_parse_sample toLowerCase_ascii never_positive
        (Some keep_all) 5 [] sample_events))) \<and>
   map post_id (getAllReels (snd (cache_after JSON_parse_sample toLowerCase_ascii never_positive
        (Some keep_all) 5 [] sample_events))) = [JStr ''X'', JStr ''Y''] \<and>
   map post_id (offered (fst (cache_after JSON_parse_sample toLowerCase_ascii never_positive
        (Some keep_all) 5 [] sample_events))) = [JStr ''X'', JStr ''Y''] \<and>
   extractReelDataFromItem toLowerCase_ascii (JObj [(''like_count'', JNum 3)]) = JNull \<and>
   addReel (JObj [(''post_id'', JStr [])]) new_collector = (Inr JUndefined, new_collector)"
proof -
  let ?after = "cache_after JSON_parse_sample toLowerCase_ascii never_positive
      (Some keep_all) 5 []"
  have h1: "\<not> truthy (item_id (JObj [(''like_count'', JNum 3)]))" by code_simp
  have h2: "\<not> truthy (post_id (JObj [(''post_id'', JStr [])]))" by code_simp
  have ev: "?after sample_events = sample_session" by (rule cache_after_sample_events)
  have h3: "map post_id (getAllReels (snd sample_session)) = [JStr ''X'', JStr ''Y'']"
    by code_simp
  have h4: "map post_id (offered (fst sample_session)) = [JStr ''X'', JStr ''Y'']"
    by code_simp
  show ?thesis
    using h1 h2 h3 h4
      cached_records_have_ids [of JSON_parse_sample toLowerCase_ascii never_positive
        "Some keep_all" 5 "[]" sample_events "JObj [(''like_count'', JNum 3)]" new_collector
        "JObj [(''post_id'', JStr [])]"]
    unfolding ev by simp
qed

text \<open>
  The claim asks for non-negative counts in every record cached or stored. The
  intercepted response \<open>sample_text\<close> carries \<open>like_count: -5\<close>; the record cached
  for it has \<open>likes_count = -5\<close>, and the pass on that reel hands it to \<open>savePost\<close>
  with that count.
\<close>

theorem negative_count_is_cached:
  "jprop ''likes_count''
     (getReel (JStr ''X'')
        (snd (cache_after JSON_parse_sample toLowerCase_ascii never_positive (Some keep_all) 5 []
           [Intercepted (sample_packet sample_text)]))) = JNum (- 5) \<and>
   map (jprop ''likes_count'')
     (offered (fst (cache_after JSON_parse_sample toLowerCase_ascii never_positive
        (Some keep_all) 5 []
        [Intercepted (sample_packet sample_text), Pass (Some ''X'') JNull [] None False]))) =
   [JNum (- 5)]"
proof -
  have a: "jprop ''likes_count'' (getReel (JStr ''X'') (snd (sample_start, sample_cache))) =
      JNum (- 5)"
    by code_simp
  have b: "map (jprop ''likes_count'')
      (offered (fst (foldl (cache_step JSON_parse_sample toLowerCase_ascii never_positive
          (Some keep_all) 5) (sample_start, sample_cache)
          [Pass (Some ''X'') JNull [] None False]))) = [JNum (- 5)]"
    by code_simp
  show ?thesis
    unfolding cache_after_intercepted_sample using a b by simp
qed

end
